theory Spec2Isabelle
  imports Complex_Main
begin

section \<open>Data model\<close>

text \<open>
  The circuit container of \<^verbatim>\<open>quafu/quantum_circuit.py\<close> and the gate classes it appends.
  Qubit positions and classical bits are natural numbers (Python's negative indexing is
  outside the model).  A Python exception is a value of the type \<open>error\<close>.
\<close>

datatype error = IndexError | ValueError | TypeError | NameError | CircuitError | EvalError

text \<open>
  A gate parameter is a Python float: a finite value, given by a real number, one of the
  two infinities, or not-a-number.  The two zeros of the format compare equal and are
  both \<open>Finite 0\<close>.  The comparison \<^verbatim>\<open>para != 0.\<close> of the builders is false for the zeros
  only: it is true for the infinities and for not-a-number.
\<close>

datatype pyfloat = Finite real | PosInf | NegInf | NaN

text \<open>
  A gate object is told apart by the class tests the circuit code performs
  (\<^verbatim>\<open>isinstance(gate, FixedSingleQubitGate)\<close>, ...) and carries the attributes
  \<^verbatim>\<open>name\<close>, \<^verbatim>\<open>pos\<close> and \<^verbatim>\<open>paras\<close>.  A single-qubit gate has one integer
  position, the others a list.
\<close>

datatype gate =
    FixedSingleQubitGate string nat
  | ParaSingleQubitGate string nat pyfloat
  | FixedTwoQubitGate string "nat list"
  | ParaTwoQubitGate string "nat list" "pyfloat list"
  | Barrier "nat list"

fun is_SingleQubitGate :: "gate \<Rightarrow> bool" where
  "is_SingleQubitGate (FixedSingleQubitGate _ _) = True"
| "is_SingleQubitGate (ParaSingleQubitGate _ _ _) = True"
| "is_SingleQubitGate _ = False"

fun is_TwoQubitGate :: "gate \<Rightarrow> bool" where
  "is_TwoQubitGate (FixedTwoQubitGate _ _) = True"
| "is_TwoQubitGate (ParaTwoQubitGate _ _ _) = True"
| "is_TwoQubitGate _ = False"

fun is_Barrier :: "gate \<Rightarrow> bool" where
  "is_Barrier (Barrier _) = True"
| "is_Barrier _ = False"

text \<open>The positions of a gate as a list (a single-qubit gate has the one).\<close>

fun positions :: "gate \<Rightarrow> nat list" where
  "positions (FixedSingleQubitGate _ p) = [p]"
| "positions (ParaSingleQubitGate _ p _) = [p]"
| "positions (FixedTwoQubitGate _ ps) = ps"
| "positions (ParaTwoQubitGate _ ps _) = ps"
| "positions (Barrier ps) = ps"

text \<open>
  Modelled from the spec: the concrete gate classes of \<^verbatim>\<open>element_gates\<close>, which the
  circuit imports and which are not among the sources.  Each is its base class with a fixed
  name; the names are the upper-case forms of the mnemonics the exporter is specified to
  write (\<^verbatim>\<open>h\<close>, \<^verbatim>\<open>cx\<close>, ...).
\<close>

definition HGate :: "nat \<Rightarrow> gate" where "HGate pos = FixedSingleQubitGate ''H'' pos"
definition XGate :: "nat \<Rightarrow> gate" where "XGate pos = FixedSingleQubitGate ''X'' pos"
definition YGate :: "nat \<Rightarrow> gate" where "YGate pos = FixedSingleQubitGate ''Y'' pos"
definition ZGate :: "nat \<Rightarrow> gate" where "ZGate pos = FixedSingleQubitGate ''Z'' pos"
definition RXGate :: "nat \<Rightarrow> pyfloat \<Rightarrow> gate" where "RXGate pos para = ParaSingleQubitGate ''RX'' pos para"
definition RYGate :: "nat \<Rightarrow> pyfloat \<Rightarrow> gate" where "RYGate pos para = ParaSingleQubitGate ''RY'' pos para"
definition RZGate :: "nat \<Rightarrow> pyfloat \<Rightarrow> gate" where "RZGate pos para = ParaSingleQubitGate ''RZ'' pos para"
definition CXGate :: "nat list \<Rightarrow> gate" where "CXGate pos = FixedTwoQubitGate ''CX'' pos"
definition CYGate :: "nat list \<Rightarrow> gate" where "CYGate pos = FixedTwoQubitGate ''CY'' pos"
definition CZGate :: "nat list \<Rightarrow> gate" where "CZGate pos = FixedTwoQubitGate ''CZ'' pos"
definition SwapGate :: "nat list \<Rightarrow> gate" where "SwapGate pos = FixedTwoQubitGate ''SWAP'' pos"

text \<open>A cell of the layered layout: a row's qubit index, a gate reference, or \<^verbatim>\<open>None\<close>.\<close>

datatype cell = QubitIndex nat | GateRef gate | NoneCell

fun cell_of :: "gate option \<Rightarrow> cell" where
  "cell_of None = NoneCell"
| "cell_of (Some g) = GateRef g"

subsection \<open>Python dictionaries\<close>

text \<open>
  A \<^verbatim>\<open>dict\<close> keeps its keys in insertion order, and assigning to a key that is present
  replaces the value in place: an association list with distinct keys.
\<close>

type_synonym ('k, 'v) dict = "('k \<times> 'v) list"

fun dict_set :: "('k, 'v) dict \<Rightarrow> 'k \<Rightarrow> 'v \<Rightarrow> ('k, 'v) dict" where
  "dict_set [] k v = [(k, v)]"
| "dict_set ((k', v') # d) k v =
     (if k' = k then (k, v) # d else (k', v') # dict_set d k v)"

text \<open>\<^verbatim>\<open>dict(pairs)\<close>: the pairs are assigned from left to right.\<close>

definition dict_of :: "('k \<times> 'v) list \<Rightarrow> ('k, 'v) dict" where
  "dict_of kvs = foldl (\<lambda>d kv. dict_set d (fst kv) (snd kv)) [] kvs"

definition dict_keys :: "('k, 'v) dict \<Rightarrow> 'k list" where
  "dict_keys d = map fst d"

subsection \<open>The circuit container\<close>

text \<open>
  The fields of \<^verbatim>\<open>QuantumCircuit\<close> that the modelled methods read or write
  (\<^verbatim>\<open>backend\<close> and \<^verbatim>\<open>_compile\<close> belong to the remote execution path).
\<close>

record QuantumCircuit =
  num :: nat
  shots :: int
  tomo :: bool
  gates :: "gate list"
  openqasm :: string
  circuit :: "cell list list"
  measures :: "(nat, nat) dict"
  used_qubits :: "nat list"

definition QuantumCircuit_init :: "nat \<Rightarrow> QuantumCircuit" where
  "QuantumCircuit_init n =
     \<lparr> num = n, shots = 1000, tomo = False, gates = [], openqasm = [], circuit = [],
       measures = dict_of (zip [0..<n] [0..<n]), used_qubits = [] \<rparr>"

subsection \<open>Builder operations\<close>

text \<open>
  Each builder appends one gate object and returns the circuit.  The constructors it calls
  (\<^verbatim>\<open>QuantumGate.__init__\<close> and its subclasses) store \<^verbatim>\<open>pos\<close> and \<^verbatim>\<open>paras\<close> and
  format the symbol; they look at no register size and compare no positions.
\<close>

definition qc_h :: "QuantumCircuit \<Rightarrow> nat \<Rightarrow> QuantumCircuit" where
  "qc_h c pos = c\<lparr>gates := gates c @ [HGate pos]\<rparr>"

definition qc_x :: "QuantumCircuit \<Rightarrow> nat \<Rightarrow> QuantumCircuit" where
  "qc_x c pos = c\<lparr>gates := gates c @ [XGate pos]\<rparr>"

definition qc_y :: "QuantumCircuit \<Rightarrow> nat \<Rightarrow> QuantumCircuit" where
  "qc_y c pos = c\<lparr>gates := gates c @ [YGate pos]\<rparr>"

definition qc_z :: "QuantumCircuit \<Rightarrow> nat \<Rightarrow> QuantumCircuit" where
  "qc_z c pos = c\<lparr>gates := gates c @ [ZGate pos]\<rparr>"

definition qc_rx :: "QuantumCircuit \<Rightarrow> nat \<Rightarrow> pyfloat \<Rightarrow> QuantumCircuit" where
  "qc_rx c pos para = (if para \<noteq> Finite 0 then c\<lparr>gates := gates c @ [RXGate pos para]\<rparr> else c)"

definition qc_ry :: "QuantumCircuit \<Rightarrow> nat \<Rightarrow> pyfloat \<Rightarrow> QuantumCircuit" where
  "qc_ry c pos para = (if para \<noteq> Finite 0 then c\<lparr>gates := gates c @ [RYGate pos para]\<rparr> else c)"

definition qc_rz :: "QuantumCircuit \<Rightarrow> nat \<Rightarrow> pyfloat \<Rightarrow> QuantumCircuit" where
  "qc_rz c pos para = (if para \<noteq> Finite 0 then c\<lparr>gates := gates c @ [RZGate pos para]\<rparr> else c)"

definition qc_cnot :: "QuantumCircuit \<Rightarrow> nat \<Rightarrow> nat \<Rightarrow> QuantumCircuit" where
  "qc_cnot c ctrl tar = c\<lparr>gates := gates c @ [CXGate [ctrl, tar]]\<rparr>"

definition qc_cy :: "QuantumCircuit \<Rightarrow> nat \<Rightarrow> nat \<Rightarrow> QuantumCircuit" where
  "qc_cy c ctrl tar = c\<lparr>gates := gates c @ [CYGate [ctrl, tar]]\<rparr>"

definition qc_cz :: "QuantumCircuit \<Rightarrow> nat \<Rightarrow> nat \<Rightarrow> QuantumCircuit" where
  "qc_cz c ctrl tar = c\<lparr>gates := gates c @ [CZGate [ctrl, tar]]\<rparr>"

definition qc_swap :: "QuantumCircuit \<Rightarrow> nat \<Rightarrow> nat \<Rightarrow> QuantumCircuit" where
  "qc_swap c q1 q2 = c\<lparr>gates := gates c @ [SwapGate [q1, q2]]\<rparr>"

definition qc_barrier :: "QuantumCircuit \<Rightarrow> nat list \<Rightarrow> QuantumCircuit" where
  "qc_barrier c qlist = c\<lparr>gates := gates c @ [Barrier qlist]\<rparr>"

text \<open>
  \<^verbatim>\<open>measure\<close> assigns three fields and only then looks at \<^verbatim>\<open>cbits\<close>.  The result is
  the exception raised, if any, together with the circuit as the call leaves it.
\<close>

definition qc_measure ::
  "QuantumCircuit \<Rightarrow> nat list \<Rightarrow> int \<Rightarrow> nat list \<Rightarrow> bool \<Rightarrow> error option \<times> QuantumCircuit" where
  "qc_measure c pos shots' cbits tomo' =
     (let c1 = c\<lparr>measures := dict_of (zip pos [0..<length pos]), shots := shots', tomo := tomo'\<rparr>
      in if cbits \<noteq> [] then
           (if length cbits = length (measures c1)
            then (None, c1\<lparr>measures := dict_of (zip pos cbits)\<rparr>)
            else (Some CircuitError, c1))
         else (None, c1))"

section \<open>The layering scheduler\<close>

text \<open>Python's \<^verbatim>\<open>min\<close> and \<^verbatim>\<open>max\<close> of a list raise \<^verbatim>\<open>ValueError\<close> on the empty list.\<close>

fun py_max :: "nat list \<Rightarrow> error + nat" where
  "py_max [] = Inl ValueError"
| "py_max (x # xs) = Inr (fold max xs x)"

fun py_min :: "nat list \<Rightarrow> error + nat" where
  "py_min [] = Inl ValueError"
| "py_min (x # xs) = Inr (fold min xs x)"

text \<open>\<^verbatim>\<open>if pos not in used_qubits: used_qubits.append(pos)\<close>\<close>

definition used_add :: "nat list \<Rightarrow> nat \<Rightarrow> nat list" where
  "used_add used p = (if p \<in> set used then used else used @ [p])"

text \<open>\<^verbatim>\<open>gateQlist[j].append(e)\<close>; the index \<open>j\<close> must be a wire of the register.\<close>

definition row_append :: "gate option list list \<Rightarrow> nat \<Rightarrow> gate option \<Rightarrow> error + gate option list list" where
  "row_append Q j e = (if j < length Q then Inr (Q[j := Q ! j @ [e]]) else Inl IndexError)"

text \<open>\<^verbatim>\<open>for j in range(pos1 + 1, pos2 + 1): gateQlist[j].append(None)\<close>\<close>

fun append_nones :: "gate option list list \<Rightarrow> nat list \<Rightarrow> error + gate option list list" where
  "append_nones Q [] = Inr Q"
| "append_nones Q (j # js) =
     (case row_append Q j None of Inl e \<Rightarrow> Inl e | Inr Q' \<Rightarrow> append_nones Q' js)"

text \<open>\<^verbatim>\<open>xs.insert(i, x)\<close> for an index \<open>0 \<le> i\<close>.\<close>

definition list_insert :: "'a list \<Rightarrow> nat \<Rightarrow> 'a \<Rightarrow> 'a list" where
  "list_insert xs i x = take i xs @ x # drop i xs"

text \<open>
  The body of the second loop over the span, for one wire: the wire is brought to the
  length \<open>maxlayer\<close> by inserting \<^verbatim>\<open>None\<close> at the position of its last entry, which is
  computed once, before the insertions.
\<close>

definition justify :: "nat \<Rightarrow> gate option list \<Rightarrow> gate option list" where
  "justify maxlayer row =
     (let layerj = length row; pos = layerj - 1
      in if layerj \<noteq> maxlayer
         then ((\<lambda>r. list_insert r pos None) ^^ nat \<bar>int layerj - int maxlayer\<bar>) row
         else row)"

text \<open>
  One iteration of the loop over the gate list; the state is \<^verbatim>\<open>gateQlist\<close> and
  \<^verbatim>\<open>used_qubits\<close>.
\<close>

definition schedule_span ::
  "gate option list list \<times> nat list \<Rightarrow> gate \<Rightarrow> error + (gate option list list \<times> nat list)" where
  "schedule_span st gate =
     (case py_min (positions gate) of Inl e \<Rightarrow> Inl e | Inr pos1 \<Rightarrow>
      case py_max (positions gate) of Inl e \<Rightarrow> Inl e | Inr pos2 \<Rightarrow>
      case row_append (fst st) pos1 (Some gate) of Inl e \<Rightarrow> Inl e | Inr Q1 \<Rightarrow>
      case append_nones Q1 [pos1 + 1 ..< pos2 + 1] of Inl e \<Rightarrow> Inl e | Inr Q2 \<Rightarrow>
      let used = (if is_TwoQubitGate gate then fold (\<lambda>pos u. used_add u pos) (positions gate) (snd st)
                  else snd st)
      in case py_max (map (\<lambda>j. length (Q2 ! j)) [pos1 ..< pos2 + 1]) of Inl e \<Rightarrow> Inl e
         | Inr maxlayer \<Rightarrow>
             Inr (fold (\<lambda>j Q. Q[j := justify maxlayer (Q ! j)]) [pos1 ..< pos2 + 1] Q2, used))"

definition schedule_gate ::
  "gate option list list \<times> nat list \<Rightarrow> gate \<Rightarrow> error + (gate option list list \<times> nat list)" where
  "schedule_gate st gate =
     (if is_SingleQubitGate gate then
        (case row_append (fst st) (hd (positions gate)) (Some gate) of
           Inl e \<Rightarrow> Inl e
         | Inr Q \<Rightarrow> Inr (Q, used_add (snd st) (hd (positions gate))))
      else if is_Barrier gate \<or> is_TwoQubitGate gate then schedule_span st gate
      else Inr st)"

fun schedule_gates ::
  "gate option list list \<times> nat list \<Rightarrow> gate list \<Rightarrow> error + (gate option list list \<times> nat list)" where
  "schedule_gates st [] = Inr st"
| "schedule_gates st (g # gs) =
     (case schedule_gate st g of Inl e \<Rightarrow> Inl e | Inr st' \<Rightarrow> schedule_gates st' gs)"

text \<open>
  \<^verbatim>\<open>np.vstack((used_qubits, np.array(new_gateQlist).T)).T\<close>: the sorted qubit indices
  become column 0 of the array of rows.  The stacking raises \<^verbatim>\<open>ValueError\<close> when there
  are not as many indices as rows; with no index and no row the array has no row.
\<close>

definition vstack_index :: "nat list \<Rightarrow> gate option list list \<Rightarrow> error + cell list list" where
  "vstack_index used rows =
     (if length used = length rows
      then Inr (map (\<lambda>(q, row). QubitIndex q # map cell_of row) (zip used rows))
      else Inl ValueError)"

text \<open>
  \<^verbatim>\<open>layered_circuit\<close> returns the layout and stores it, with the sorted active qubits,
  in the circuit.
\<close>

definition layered_circuit :: "QuantumCircuit \<Rightarrow> error + (cell list list \<times> QuantumCircuit)" where
  "layered_circuit c =
     (case schedule_gates (replicate (num c) [], []) (gates c) of Inl e \<Rightarrow> Inl e
      | Inr (gateQlist, used) \<Rightarrow>
      case py_max (map length gateQlist) of Inl e \<Rightarrow> Inl e | Inr maxdepth \<Rightarrow>
      let padded = map (\<lambda>gs. gs @ replicate (maxdepth - length gs) None) gateQlist;
          used1 = fold (\<lambda>m u. used_add u m) (dict_keys (measures c)) used;
          used2 = sort used1;
          new_gateQlist = map (\<lambda>old_qi. padded ! old_qi)
                            (filter (\<lambda>old_qi. old_qi \<in> set used2) [0 ..< length padded])
      in case vstack_index used2 new_gateQlist of Inl e \<Rightarrow> Inl e
         | Inr lc \<Rightarrow> Inr (lc, c\<lparr>circuit := lc, used_qubits := used2\<rparr>))"

section \<open>The gate algebra\<close>

text \<open>
  A \<^verbatim>\<open>numpy\<close> array is its shape and its entries in row-major order.
  \<^verbatim>\<open>reshape\<close> keeps the entries and needs a shape of the same size;
  \<^verbatim>\<open>transpose\<close> needs a permutation of the axes, and entry \<open>I\<close> of its result is
  the entry \<open>J\<close> of the argument with \<open>J[axes[m]] = I[m]\<close>.
\<close>

record 'a ndarray =
  shape :: "nat list"
  entries :: "'a list"

text \<open>Index tuple to offset, and back, in row-major order.\<close>

fun ravel :: "nat list \<Rightarrow> nat list \<Rightarrow> nat" where
  "ravel (s # ss) (i # is) = i * prod_list ss + ravel ss is"
| "ravel _ _ = 0"

fun unravel :: "nat list \<Rightarrow> nat \<Rightarrow> nat list" where
  "unravel [] f = []"
| "unravel (s # ss) f = (f div prod_list ss) # unravel ss (f mod prod_list ss)"

definition reshape :: "nat list \<Rightarrow> 'a ndarray \<Rightarrow> error + 'a ndarray" where
  "reshape newshape a =
     (if prod_list newshape = length (entries a) then Inr (a\<lparr>shape := newshape\<rparr>)
      else Inl ValueError)"

text \<open>The first index at which \<open>x\<close> occurs in a list.\<close>

definition pos_of :: "nat list \<Rightarrow> nat \<Rightarrow> nat" where
  "pos_of xs x = length (takeWhile (\<lambda>y. y \<noteq> x) xs)"

definition transpose_nd :: "nat list \<Rightarrow> 'a ndarray \<Rightarrow> error + 'a ndarray" where
  "transpose_nd axes a =
     (let n = length (shape a)
      in if sort axes \<noteq> [0 ..< n] then Inl ValueError
         else
           let newshape = map (\<lambda>m. shape a ! (axes ! m)) [0 ..< n]
           in Inr \<lparr> shape = newshape,
                    entries = map (\<lambda>f. entries a ! ravel (shape a)
                                          (map (\<lambda>j. unravel newshape f ! pos_of axes j) [0 ..< n]))
                                [0 ..< prod_list newshape] \<rparr>)"

text \<open>\<^verbatim>\<open>np.argsort\<close>: the indices that sort the list (equal keys keep their order).\<close>

definition argsort :: "nat list \<Rightarrow> nat list" where
  "argsort pos = map snd (sort_key fst (zip pos [0 ..< length pos]))"

text \<open>Sequencing of computations that may raise.\<close>

definition bind_err :: "error + 'a \<Rightarrow> ('a \<Rightarrow> error + 'b) \<Rightarrow> error + 'b" where
  "bind_err r f = (case r of Inl e \<Rightarrow> Inl e | Inr v \<Rightarrow> f v)"

definition reorder_matrix :: "'a ndarray \<Rightarrow> nat list \<Rightarrow> error + 'a ndarray" where
  "reorder_matrix matrix pos =
     (let qnum = length pos;
          dim' = 2 ^ qnum;
          inds = argsort pos;
          inds2 = inds @ map (\<lambda>i. i + qnum) inds
      in bind_err (reshape (replicate (2 * qnum) 2) matrix) (\<lambda>tensorm.
         bind_err (transpose_nd inds2 tensorm) (\<lambda>t. reshape [dim', dim'] t)))"

text \<open>\<^verbatim>\<open>np.eye(dim, dtype=complex)\<close>\<close>

definition eye :: "nat \<Rightarrow> complex ndarray" where
  "eye dim' = \<lparr> shape = [dim', dim'],
               entries = concat (map (\<lambda>r. map (\<lambda>c. if r = c then 1 else 0) [0 ..< dim']) [0 ..< dim']) \<rparr>"

text \<open>
  \<^verbatim>\<open>dst[start:, start:] = src\<close>.  The index needs two axes of \<open>dst\<close>
  (\<^verbatim>\<open>IndexError\<close> otherwise); the slice of an axis is empty when \<open>start\<close> is not
  less than its length.  \<open>src\<close> is broadcast to the shape of the slice: unit axes in
  excess are dropped from the left, missing axes are added on the left as unit axes, and
  then every axis must have the length of the slice's axis or length one;
  \<^verbatim>\<open>ValueError\<close> is raised otherwise.
\<close>

fun strip_ones :: "nat \<Rightarrow> nat list \<Rightarrow> nat list" where
  "strip_ones n [] = []"
| "strip_ones n (s # sh) = (if n < Suc (length sh) \<and> s = 1 then strip_ones n sh else s # sh)"

definition assign_block :: "nat \<Rightarrow> 'a ndarray \<Rightarrow> 'a ndarray \<Rightarrow> error + 'a ndarray" where
  "assign_block start dst src =
     (case shape dst of
        rows # cols # rest \<Rightarrow>
          let target = (rows - min start rows) # (cols - min start cols) # rest;
              sh = strip_ones (length target) (shape src)
          in if length target < length sh then Inl ValueError
             else
               let padded = replicate (length target - length sh) 1 @ sh
               in if list_all2 (\<lambda>s t. s = t \<or> s = 1) padded target
                  then Inr (dst\<lparr>entries :=
                         map (\<lambda>f.
                           let idx = unravel (shape dst) f
                           in if start \<le> idx ! 0 \<and> start \<le> idx ! 1
                              then entries src ! ravel padded
                                     (map (\<lambda>i. if padded ! i = 1 then 0
                                               else idx ! i - (if i < 2 then start else 0))
                                        [0 ..< length target])
                              else entries dst ! f)
                         [0 ..< prod_list (shape dst)]\<rparr>)
                  else Inl ValueError
      | _ \<Rightarrow> Inl IndexError)"

text \<open>
  The matrix that \<^verbatim>\<open>ControlledGate.__init__\<close> builds from the control and target
  positions and the target matrix.
\<close>

definition ControlledGate_matrix :: "nat list \<Rightarrow> nat list \<Rightarrow> complex ndarray \<Rightarrow> error + complex ndarray" where
  "ControlledGate_matrix ctrls targs tar_matrix =
     (let pos = ctrls @ targs;
          targ_dim = 2 ^ length targs;
          ctrl_dim = 2 ^ length ctrls;
          dim' = targ_dim + ctrl_dim;
          control_dim = 2 ^ length pos - targ_dim
      in bind_err (assign_block control_dim (eye dim') tar_matrix) (\<lambda>m. reorder_matrix m pos))"

text \<open>The Pauli X matrix, a matrix of side 4, and the inverse of a permutation given as a list.\<close>

definition pauli_x :: "complex ndarray" where
  "pauli_x = \<lparr> shape = [2, 2], entries = [0, 1, 1, 0] \<rparr>"

definition sample_matrix :: "complex ndarray" where
  "sample_matrix = \<lparr> shape = [4, 4],
                       entries = [0, 1, 2, 3,  4, 5, \<i>, 7,  8, 9, 10, 11,  12, 13, 14, 15] \<rparr>"

definition inverse_perm :: "nat list \<Rightarrow> nat list" where
  "inverse_perm p = map (pos_of p) [0 ..< length p]"

section \<open>The OpenQASM codec\<close>

subsection \<open>String operations of Python\<close>

text \<open>
  Strings are lists of 8-bit characters.  \<^verbatim>\<open>"%d" % n\<close> writes a natural number in
  decimal; \<^verbatim>\<open>int(s)\<close> reads a run of decimal digits.
\<close>

definition digit_char :: "nat \<Rightarrow> char" where
  "digit_char d = ''0123456789'' ! d"

definition is_digit :: "char \<Rightarrow> bool" where
  "is_digit ch \<longleftrightarrow> ch \<in> set ''0123456789''"

definition digit_val :: "char \<Rightarrow> nat" where
  "digit_val ch = of_char ch - 48"

fun str_nat :: "nat \<Rightarrow> string" where
  "str_nat n = (if n < 10 then [digit_char n] else str_nat (n div 10) @ [digit_char (n mod 10)])"

declare str_nat.simps [simp del]

definition int_of_digits :: "string \<Rightarrow> nat" where
  "int_of_digits s = foldl (\<lambda>n ch. 10 * n + digit_val ch) 0 s"

text \<open>\<^verbatim>\<open>str.lower()\<close>, on the ASCII letters.\<close>

definition lower_char :: "char \<Rightarrow> char" where
  "lower_char ch =
     (case map_of (zip ''ABCDEFGHIJKLMNOPQRSTUVWXYZ'' ''abcdefghijklmnopqrstuvwxyz'') ch of
        Some l \<Rightarrow> l | None \<Rightarrow> ch)"

definition lower :: "string \<Rightarrow> string" where
  "lower s = map lower_char s"

text \<open>\<^verbatim>\<open>sep.join(parts)\<close>\<close>

fun join :: "string \<Rightarrow> string list \<Rightarrow> string" where
  "join sep [] = []"
| "join sep [s] = s"
| "join sep (s # t # ts) = s @ sep @ join sep (t # ts)"

text \<open>
  \<^verbatim>\<open>str.splitlines()\<close>: a line ends at a line feed, a carriage return (with the line
  feed that follows it, if any), or one of the other line boundaries of Python that fit
  in a byte; the boundaries are dropped and no empty last line is produced.
\<close>

definition is_linebreak :: "char \<Rightarrow> bool" where
  "is_linebreak ch \<longleftrightarrow>
     ch \<in> set [CHR 0x0A, CHR 0x0B, CHR 0x0C, CHR 0x0D, CHR 0x1C, CHR 0x1D, CHR 0x1E, CHR 0x85]"

fun splitlines_from :: "string \<Rightarrow> string \<Rightarrow> string list" where
  "splitlines_from cur [] = (if cur = [] then [] else [cur])"
| "splitlines_from cur [ch] = (if is_linebreak ch then [cur] else [cur @ [ch]])"
| "splitlines_from cur (ch # d # cs) =
     (if ch = CHR 0x0D \<and> d = CHR 0x0A then cur # splitlines_from [] cs
      else if is_linebreak ch then cur # splitlines_from [] (d # cs)
      else splitlines_from (cur @ [ch]) (d # cs))"

definition splitlines :: "string \<Rightarrow> string list" where
  "splitlines s = splitlines_from [] s"

text \<open>\<^verbatim>\<open>line.split(" ", 1)\<close>: one part, or the parts before and after the first space.\<close>

definition split_space1 :: "string \<Rightarrow> string list" where
  "split_space1 line =
     (case dropWhile (\<lambda>ch. ch \<noteq> CHR '' '') line of
        [] \<Rightarrow> [line]
      | _ # rest \<Rightarrow> [takeWhile (\<lambda>ch. ch \<noteq> CHR '' '') line, rest])"

text \<open>\<^verbatim>\<open>s.split(sep)\<close> for a separator of one character: always at least one part.\<close>

fun split_from :: "char \<Rightarrow> string \<Rightarrow> string \<Rightarrow> string list" where
  "split_from sep cur [] = [cur]"
| "split_from sep cur (ch # cs) =
     (if ch = sep then cur # split_from sep [] cs else split_from sep (cur @ [ch]) cs)"

definition split_on :: "char \<Rightarrow> string \<Rightarrow> string list" where
  "split_on sep s = split_from sep [] s"

text \<open>\<^verbatim>\<open>s.strip(chars)\<close>\<close>

definition strip :: "string \<Rightarrow> string \<Rightarrow> string" where
  "strip chars s = rev (dropWhile (\<lambda>ch. ch \<in> set chars) (rev (dropWhile (\<lambda>ch. ch \<in> set chars) s)))"

text \<open>\<^verbatim>\<open>re.findall("\d+", s)\<close>: the maximal runs of digits, from left to right.\<close>

fun digit_runs :: "string \<Rightarrow> string \<Rightarrow> string list" where
  "digit_runs cur [] = (if cur = [] then [] else [cur])"
| "digit_runs cur (ch # cs) =
     (if is_digit ch then digit_runs (cur @ [ch]) cs
      else (if cur = [] then [] else [cur]) @ digit_runs [] cs)"

definition findall_digits :: "string \<Rightarrow> string list" where
  "findall_digits s = digit_runs [] s"

text \<open>\<^verbatim>\<open>xs[i]\<close> for \<open>0 \<le> i\<close>\<close>

definition py_nth :: "'a list \<Rightarrow> nat \<Rightarrow> error + 'a" where
  "py_nth xs i = (if i < length xs then Inr (xs ! i) else Inl IndexError)"

subsection \<open>Export\<close>

text \<open>
  The text of a float parameter is Python's \<^verbatim>\<open>"%s" % paras\<close>: the names \<^verbatim>\<open>inf\<close>,
  \<^verbatim>\<open>-inf\<close> and \<^verbatim>\<open>nan\<close> for the floats that are not finite, and for a finite float
  the text that a parameter \<open>str_float\<close> of the export writes.
\<close>

fun float_text :: "(real \<Rightarrow> string) \<Rightarrow> pyfloat \<Rightarrow> string" where
  "float_text str_float (Finite v) = str_float v"
| "float_text str_float PosInf = ''inf''"
| "float_text str_float NegInf = ''-inf''"
| "float_text str_float NaN = ''nan''"

text \<open>
  One statement per gate, chosen by the class of the gate as in the source; a
  \<^verbatim>\<open>ParaTwoQubitGate\<close> matches no branch and writes nothing.
\<close>

definition NL :: string where
  "NL = [CHR 0x0A]"

fun gate_to_qasm :: "(real \<Rightarrow> string) \<Rightarrow> gate \<Rightarrow> error + string" where
  "gate_to_qasm str_float (FixedSingleQubitGate name pos) =
     Inr (lower name @ '' q['' @ str_nat pos @ ''];'' @ NL)"
| "gate_to_qasm str_float (ParaSingleQubitGate name pos para) =
     Inr (lower name @ ''('' @ float_text str_float para @ '') q['' @ str_nat pos @ ''];'' @ NL)"
| "gate_to_qasm str_float (FixedTwoQubitGate name pos) =
     bind_err (py_nth pos 0) (\<lambda>p0. bind_err (py_nth pos 1) (\<lambda>p1.
       Inr (lower name @ '' q['' @ str_nat p0 @ ''],q['' @ str_nat p1 @ ''];'' @ NL)))"
| "gate_to_qasm str_float (ParaTwoQubitGate name pos paras) = Inr []"
| "gate_to_qasm str_float (Barrier pos) =
     Inr (''barrier '' @ join '','' (map (\<lambda>p. ''q['' @ str_nat p @ '']'') pos) @ '';'' @ NL)"

fun gates_to_qasm :: "(real \<Rightarrow> string) \<Rightarrow> string \<Rightarrow> gate list \<Rightarrow> error + string" where
  "gates_to_qasm str_float qasm [] = Inr qasm"
| "gates_to_qasm str_float qasm (gate # gs) =
     bind_err (gate_to_qasm str_float gate) (\<lambda>s. gates_to_qasm str_float (qasm @ s) gs)"

definition measure_to_qasm :: "nat \<times> nat \<Rightarrow> string" where
  "measure_to_qasm kv = ''measure q['' @ str_nat (fst kv) @ ''] -> meas['' @ str_nat (snd kv) @ ''];'' @ NL"

definition qasm_header :: "QuantumCircuit \<Rightarrow> string" where
  \<open>qasm_header c =
     ''OPENQASM 2.0;'' @ NL @ ''include "qelib1.inc";'' @ NL
     @ ''qreg q['' @ str_nat (num c) @ ''];'' @ NL
     @ ''creg meas['' @ str_nat (length (measures c)) @ ''];'' @ NL\<close>

definition to_openqasm :: "(real \<Rightarrow> string) \<Rightarrow> QuantumCircuit \<Rightarrow> error + (string \<times> QuantumCircuit)" where
  "to_openqasm str_float c =
     bind_err (gates_to_qasm str_float (qasm_header c) (gates c)) (\<lambda>qasm1.
       let qasm = qasm1 @ concat (map measure_to_qasm (measures c))
       in Inr (qasm, c\<lparr>openqasm := qasm\<rparr>))"

subsection \<open>Import\<close>

text \<open>
  The state of the loop over the lines: the circuit under construction and the local
  variables \<^verbatim>\<open>measured_qubits\<close>, \<^verbatim>\<open>global_valid\<close> and \<^verbatim>\<open>paras\<close>.  The last is
  unbound until a statement with a parenthesised parameter list has been read, and keeps
  its value from one statement to the next.
\<close>

record import_state =
  circ :: QuantumCircuit
  measured_qubits :: "nat list"
  global_valid :: bool
  paras :: "pyfloat list option"

text \<open>
  \<^verbatim>\<open>eval(parai, {"pi": pi})\<close>: the only name bound besides the builtins is
  \<^verbatim>\<open>pi\<close>, so the texts \<^verbatim>\<open>inf\<close>, \<^verbatim>\<open>-inf\<close> and \<^verbatim>\<open>nan\<close> raise
  \<^verbatim>\<open>NameError\<close>.  What \<^verbatim>\<open>eval\<close> makes of any other text is a parameter
  \<open>eval_para\<close> of the import; \<open>None\<close> stands for any exception it raises.
\<close>

definition py_eval :: "(string \<Rightarrow> pyfloat option) \<Rightarrow> string \<Rightarrow> error + pyfloat" where
  "py_eval eval_para s =
     (if s \<in> {''inf'', ''-inf'', ''nan''} then Inl NameError
      else case eval_para s of None \<Rightarrow> Inl EvalError | Some v \<Rightarrow> Inr v)"

fun eval_all :: "(string \<Rightarrow> pyfloat option) \<Rightarrow> string list \<Rightarrow> error + pyfloat list" where
  "eval_all eval_para [] = Inr []"
| "eval_all eval_para (s # ss) =
     bind_err (py_eval eval_para s) (\<lambda>v. bind_err (eval_all eval_para ss) (\<lambda>vs. Inr (v # vs)))"

text \<open>\<^verbatim>\<open>paras[i]\<close>: the name may be unbound.\<close>

definition get_para :: "pyfloat list option \<Rightarrow> nat \<Rightarrow> error + pyfloat" where
  "get_para ps i = (case ps of None \<Rightarrow> Inl NameError | Some vs \<Rightarrow> py_nth vs i)"

text \<open>The chain of comparisons with the gate name, and the builder calls it makes.\<close>

definition apply_gate ::
  "string \<Rightarrow> nat list \<Rightarrow> pyfloat list option \<Rightarrow> QuantumCircuit \<Rightarrow> error + QuantumCircuit" where
  "apply_gate gatename inds ps c =
     (if gatename = ''cx'' then
        bind_err (py_nth inds 0) (\<lambda>a. bind_err (py_nth inds 1) (\<lambda>b. Inr (qc_cnot c a b)))
      else if gatename = ''cy'' then
        bind_err (py_nth inds 0) (\<lambda>a. bind_err (py_nth inds 1) (\<lambda>b. Inr (qc_cy c a b)))
      else if gatename = ''cz'' then
        bind_err (py_nth inds 0) (\<lambda>a. bind_err (py_nth inds 1) (\<lambda>b. Inr (qc_cz c a b)))
      else if gatename = ''swap'' then
        bind_err (py_nth inds 0) (\<lambda>a. bind_err (py_nth inds 1) (\<lambda>b. Inr (qc_swap c a b)))
      else if gatename = ''rx'' then
        bind_err (py_nth inds 0) (\<lambda>a. bind_err (get_para ps 0) (\<lambda>v. Inr (qc_rx c a v)))
      else if gatename = ''ry'' then
        bind_err (py_nth inds 0) (\<lambda>a. bind_err (get_para ps 0) (\<lambda>v. Inr (qc_ry c a v)))
      else if gatename = ''rz'' then
        bind_err (py_nth inds 0) (\<lambda>a. bind_err (get_para ps 0) (\<lambda>v. Inr (qc_rz c a v)))
      else if gatename = ''x'' then bind_err (py_nth inds 0) (\<lambda>a. Inr (qc_x c a))
      else if gatename = ''y'' then bind_err (py_nth inds 0) (\<lambda>a. Inr (qc_y c a))
      else if gatename = ''z'' then bind_err (py_nth inds 0) (\<lambda>a. Inr (qc_z c a))
      else if gatename = ''h'' then bind_err (py_nth inds 0) (\<lambda>a. Inr (qc_h c a))
      else if gatename = ''u1'' then
        bind_err (py_nth inds 0) (\<lambda>a. bind_err (get_para ps 0) (\<lambda>v. Inr (qc_rz c a v)))
      else if gatename = ''u2'' then
        bind_err (py_nth inds 0) (\<lambda>a. bind_err (get_para ps 1) (\<lambda>v1.
        bind_err (get_para ps 0) (\<lambda>v0.
          Inr (qc_rz (qc_ry (qc_rz c a v1) a (Finite (pi / 2))) a v0))))
      else if gatename = ''u3'' then
        bind_err (py_nth inds 0) (\<lambda>a. bind_err (get_para ps 2) (\<lambda>v2.
        bind_err (get_para ps 0) (\<lambda>v0. bind_err (get_para ps 1) (\<lambda>v1.
          Inr (qc_rz (qc_ry (qc_rz c a v2) a v0) a v1)))))
      else Inr c)"

text \<open>
  The statement that is neither \<^verbatim>\<open>qreg\<close>, \<^verbatim>\<open>creg\<close> nor \<^verbatim>\<open>measure\<close>: its integer
  operands are compared with the measured qubits first, and only a valid statement is
  looked at further.
\<close>

definition import_gate :: "(string \<Rightarrow> pyfloat option) \<Rightarrow> import_state \<Rightarrow> string \<Rightarrow> string \<Rightarrow> error + import_state" where
  "import_gate eval_para st operations qbs =
     (let inds = map int_of_digits (findall_digits qbs);
          valid = (\<forall>pos\<in>set inds. pos \<notin> set (measured_qubits st))
      in if \<not> valid then Inr (st\<lparr>global_valid := False\<rparr>)
         else if operations = ''barrier'' then Inr (st\<lparr>circ := qc_barrier (circ st) inds\<rparr>)
         else
           let sp_op = split_on (CHR ''('') operations; gatename = hd sp_op
           in bind_err (if length sp_op > 1
                        then bind_err (eval_all eval_para (split_on (CHR '','') (strip ''()'' (sp_op ! 1))))
                               (\<lambda>vs. Inr (Some vs))
                        else Inr (paras st))
                (\<lambda>ps. bind_err (apply_gate gatename inds ps (circ st))
                   (\<lambda>c. Inr (st\<lparr>circ := c, paras := ps\<rparr>))))"

definition import_line :: "(string \<Rightarrow> pyfloat option) \<Rightarrow> import_state \<Rightarrow> string \<Rightarrow> error + import_state" where
  "import_line eval_para st line =
     (if line = [] then Inr st
      else
        let operations_qbs = split_space1 line; operations = hd operations_qbs
        in if operations = ''qreg'' then
             bind_err (py_nth operations_qbs 1) (\<lambda>qbs.
             bind_err (py_nth (findall_digits qbs) 0) (\<lambda>d.
               Inr (st\<lparr>circ := (circ st)\<lparr>num := int_of_digits d\<rparr>\<rparr>)))
           else if operations = ''creg'' then Inr st
           else if operations = ''measure'' then
             bind_err (py_nth operations_qbs 1) (\<lambda>qbs.
               let inds = map int_of_digits (findall_digits qbs)
               in bind_err (py_nth inds 0) (\<lambda>mb. bind_err (py_nth inds 1) (\<lambda>cb.
                    Inr (st\<lparr>circ := (circ st)\<lparr>measures := dict_set (measures (circ st)) mb cb\<rparr>,
                            measured_qubits := measured_qubits st @ [mb]\<rparr>))))
           else bind_err (py_nth operations_qbs 1) (\<lambda>qbs. import_gate eval_para st operations qbs))"

fun import_lines :: "(string \<Rightarrow> pyfloat option) \<Rightarrow> import_state \<Rightarrow> string list \<Rightarrow> error + import_state" where
  "import_lines eval_para st [] = Inr st"
| "import_lines eval_para st (line # ls) =
     bind_err (import_line eval_para st line) (\<lambda>st'. import_lines eval_para st' ls)"

text \<open>
  \<^verbatim>\<open>from_openqasm\<close> returns nothing; the model returns the circuit it leaves and
  whether the warning about operations after measurement is printed.  Its three parts are
  the assignments before the loop, the loop over \<^verbatim>\<open>lines[2:]\<close>, and the two tests
  after the loop.
\<close>

definition import_init :: "QuantumCircuit \<Rightarrow> string \<Rightarrow> import_state" where
  "import_init c text =
     \<lparr> circ = c\<lparr>openqasm := text, gates := [], measures := []\<rparr>,
       measured_qubits = [], global_valid = True, paras = None \<rparr>"

definition import_finish :: "import_state \<Rightarrow> QuantumCircuit \<times> bool" where
  "import_finish st =
     (let c1 = circ st;
          c2 = (if measures c1 = [] then c1\<lparr>measures := dict_of (zip [0..<num c1] [0..<num c1])\<rparr>
                else c1)
      in (c2, \<not> global_valid st))"

definition from_openqasm ::
  "(string \<Rightarrow> pyfloat option) \<Rightarrow> QuantumCircuit \<Rightarrow> string \<Rightarrow> error + (QuantumCircuit \<times> bool)" where
  "from_openqasm eval_para c text =
     (let lines = splitlines text
      in bind_err (import_lines eval_para (import_init c text) (drop 2 lines))
           (\<lambda>st. Inr (import_finish st)))"

text \<open>
  Stand-ins for \<^verbatim>\<open>str\<close> on a finite float and for \<^verbatim>\<open>eval\<close>, right on the
  floats \<open>0.5\<close> and \<open>-2.0\<close>, for running examples.
\<close>

definition demo_str_float :: "real \<Rightarrow> string" where
  "demo_str_float v = (if v = 1 / 2 then ''0.5'' else ''-2.0'')"

definition demo_eval_para :: "string \<Rightarrow> pyfloat option" where
  "demo_eval_para s =
     (if s = ''0.5'' then Some (Finite (1 / 2)) else if s = ''-2.0'' then Some (Finite (- 2)) else None)"

text \<open>The circuit of the end-to-end example of the specification.\<close>

definition bell_circuit :: QuantumCircuit where
  "bell_circuit = snd (qc_measure (qc_cnot (qc_h (QuantumCircuit_init 2) 0) 0 1) [0, 1] 1000 [0, 1] False)"

definition bell_layout :: "cell list list" where
  "bell_layout =
     [[QubitIndex 0, GateRef (HGate 0), GateRef (CXGate [0, 1])],
      [QubitIndex 1, NoneCell, NoneCell]]"

definition bell_statements :: "string list" where
  \<open>bell_statements =
     [''OPENQASM 2.0;'', ''include "qelib1.inc";'', ''qreg q[2];'', ''creg meas[2];'',
      ''h q[0];'', ''cx q[0],q[1];'', ''measure q[0] -> meas[0];'', ''measure q[1] -> meas[1];'']\<close>

definition bell_qasm :: string where
  "bell_qasm = concat (map (\<lambda>s. s @ NL) bell_statements)"

subsection \<open>Recognized gates\<close>

text \<open>
  The mnemonic the exporter writes for a gate, and the gates whose statement the importer
  turns into one builder call that appends a gate: the class and mnemonic must be those
  of a gate of the builder surface (a rotation with parameter zero is never appended by
  the builders), and a two-qubit gate has its two positions.
\<close>

fun mnemonic :: "gate \<Rightarrow> string" where
  "mnemonic (FixedSingleQubitGate name _) = lower name"
| "mnemonic (ParaSingleQubitGate name _ _) = lower name"
| "mnemonic (FixedTwoQubitGate name _) = lower name"
| "mnemonic (ParaTwoQubitGate name _ _) = lower name"
| "mnemonic (Barrier _) = ''barrier''"

fun recognized :: "gate \<Rightarrow> bool" where
  "recognized (FixedSingleQubitGate name _) = (lower name \<in> {''h'', ''x'', ''y'', ''z''})"
| "recognized (ParaSingleQubitGate name _ para) = (lower name \<in> {''rx'', ''ry'', ''rz''} \<and> para \<noteq> Finite 0)"
| "recognized (FixedTwoQubitGate name pos) = (lower name \<in> {''cx'', ''cy'', ''cz'', ''swap''} \<and> length pos = 2)"
| "recognized (ParaTwoQubitGate _ _ _) = False"
| "recognized (Barrier _) = True"

text \<open>
  What the round trip needs of the text of a float: \<^verbatim>\<open>eval\<close> reads it back as the
  same float, and it contains no space, parenthesis, comma or line boundary (as the
  \<^verbatim>\<open>repr\<close> of a finite float does; the texts of the infinities and of not-a-number
  are not read back).
\<close>

definition float_text_ok :: "(real \<Rightarrow> string) \<Rightarrow> (string \<Rightarrow> pyfloat option) \<Rightarrow> pyfloat \<Rightarrow> bool" where
  "float_text_ok str_float eval_para v \<longleftrightarrow>
     py_eval eval_para (float_text str_float v) = Inr v
     \<and> (\<forall>ch\<in>set (float_text str_float v). ch \<notin> set '' (),'' \<and> \<not> is_linebreak ch)"

fun paras_ok :: "(real \<Rightarrow> string) \<Rightarrow> (string \<Rightarrow> pyfloat option) \<Rightarrow> gate \<Rightarrow> bool" where
  "paras_ok str_float eval_para (ParaSingleQubitGate _ _ para) = float_text_ok str_float eval_para para"
| "paras_ok str_float eval_para _ = True"

text \<open>Proof vocabulary: the gate that the importer builds from the statement of a recognized gate.\<close>

fun rebuilt :: "gate \<Rightarrow> gate" where
  "rebuilt (FixedSingleQubitGate name pos) =
     (if lower name = ''h'' then HGate pos else if lower name = ''x'' then XGate pos
      else if lower name = ''y'' then YGate pos else ZGate pos)"
| "rebuilt (ParaSingleQubitGate name pos para) =
     (if lower name = ''rx'' then RXGate pos para else if lower name = ''ry'' then RYGate pos para
      else RZGate pos para)"
| "rebuilt (FixedTwoQubitGate name pos) =
     (if lower name = ''cx'' then CXGate [pos ! 0, pos ! 1] else if lower name = ''cy'' then CYGate [pos ! 0, pos ! 1]
      else if lower name = ''cz'' then CZGate [pos ! 0, pos ! 1] else SwapGate [pos ! 0, pos ! 1])"
| "rebuilt g = g"

text \<open>Proof vocabulary: the four lines of the header that the exporter writes.\<close>

definition header_lines :: "QuantumCircuit \<Rightarrow> string list" where
  \<open>header_lines c =
     [''OPENQASM 2.0;'', ''include "qelib1.inc";'',
      ''qreg'' @ CHR '' '' # ''q['' @ str_nat (num c) @ ''];'',
      ''creg'' @ CHR '' '' # ''meas['' @ str_nat (length (measures c)) @ ''];'']\<close>

text \<open>A circuit with one gate of each recognized kind.\<close>

definition roundtrip_circuit :: QuantumCircuit where
  "roundtrip_circuit =
     qc_swap (qc_rz (qc_barrier (qc_cnot (qc_rx (qc_h (QuantumCircuit_init 3) 0) 1 (Finite (1 / 2))) 2 0)
        [0, 2]) 1 (Finite (- 2))) 1 2"

text \<open>
  A rotation by the float infinity on one qubit, and the text that the exporter writes
  for it.
\<close>

definition inf_circuit :: QuantumCircuit where
  "inf_circuit = qc_rx (QuantumCircuit_init 1) 0 PosInf"

definition inf_statements :: "string list" where
  \<open>inf_statements =
     [''OPENQASM 2.0;'', ''include "qelib1.inc";'', ''qreg q[1];'', ''creg meas[1];'',
      ''rx(inf) q[0];'', ''measure q[0] -> meas[0];'']\<close>

definition inf_qasm :: string where
  "inf_qasm = concat (map (\<lambda>s. s @ NL) inf_statements)"

text \<open>\<^verbatim>\<open>"%d" % n\<close> for a Python integer that may be negative.\<close>

definition str_int :: "int \<Rightarrow> string" where
  "str_int i = (if i < 0 then ''-'' @ str_nat (nat (- i)) else str_nat (nat i))"

text \<open>A program that applies a gate to qubit 0 after measuring it.\<close>

definition post_measure_lines :: "string list" where
  \<open>post_measure_lines =
     [''OPENQASM 2.0;'', ''include "qelib1.inc";'', ''qreg q[2];'', ''creg meas[2];'',
      ''h q[0];'', ''measure q[0] -> meas[0];'', ''cx q[1],q[0];'', ''x q[1];'']\<close>

definition post_measure_qasm :: string where
  "post_measure_qasm = concat (map (\<lambda>s. s @ NL) post_measure_lines)"

subsection \<open>A worked example\<close>

text \<open>
  Four qubits: two Hadamards on qubit 2, a controlled X from qubit 3 to qubit 1, and a
  barrier over qubits 0 to 2.
\<close>

definition example_circuit :: QuantumCircuit where
  "example_circuit = qc_barrier (qc_cnot (qc_h (qc_h (QuantumCircuit_init 4) 2) 2) 3 1) [0, 2]"

definition example_layout :: "cell list list" where
  "example_layout =
     [[QubitIndex 0, NoneCell, NoneCell, NoneCell, GateRef (Barrier [0, 2])],
      [QubitIndex 1, NoneCell, NoneCell, GateRef (CXGate [3, 1]), NoneCell],
      [QubitIndex 2, GateRef (HGate 2), GateRef (HGate 2), NoneCell, NoneCell],
      [QubitIndex 3, NoneCell, NoneCell, NoneCell, NoneCell]]"

definition example_result :: QuantumCircuit where
  "example_result = example_circuit\<lparr>circuit := example_layout, used_qubits := [0, 1, 2, 3]\<rparr>"

text \<open>
  Proof vocabulary: every wire of \<open>Q'\<close> begins with the wire of \<open>Q\<close> at the same index.
\<close>

definition extends :: "'a list list \<Rightarrow> 'a list list \<Rightarrow> bool" where
  "extends Q Q' \<longleftrightarrow> length Q' = length Q \<and> (\<forall>j<length Q. take (length (Q ! j)) (Q' ! j) = Q ! j)"

section \<open>Dictionaries: keys are distinct\<close>

lemmas gate_class_defs =
  HGate_def XGate_def YGate_def ZGate_def RXGate_def RYGate_def RZGate_def
  CXGate_def CYGate_def CZGate_def SwapGate_def

lemma dict_set_keys: "set (map fst (dict_set d k v)) = insert k (set (map fst d))"
proof (induction d)
  case Nil
  then show ?case by simp
next
  case (Cons a d)
  obtain k' v' where a: "a = (k', v')" by (cases a)
  show ?case
  proof (cases "k' = k")
    case True
    with a show ?thesis by simp
  next
    case False
    with a Cons.IH show ?thesis by (simp add: insert_commute)
  qed
qed

lemma dict_set_distinct: "distinct (map fst d) \<Longrightarrow> distinct (map fst (dict_set d k v))"
proof (induction d)
  case Nil
  then show ?case by simp
next
  case (Cons a d)
  obtain k' v' where a: "a = (k', v')" by (cases a)
  show ?case
  proof (cases "k' = k")
    case True
    with Cons.prems a show ?thesis by simp
  next
    case False
    have "k' \<notin> set (map fst (dict_set d k v))"
      using Cons.prems a False by (simp only: dict_set_keys) auto
    with Cons a False show ?thesis by simp
  qed
qed

lemma dict_fold_keys:
  "set (map fst (foldl (\<lambda>d kv. dict_set d (fst kv) (snd kv)) d0 kvs))
     = set (map fst d0) \<union> set (map fst kvs)"
proof (induction kvs arbitrary: d0)
  case Nil
  then show ?case by simp
next
  case (Cons kv kvs)
  show ?case
    by (simp only: foldl_Cons Cons.IH dict_set_keys) auto
qed

lemma dict_fold_distinct:
  "distinct (map fst d0) \<Longrightarrow>
   distinct (map fst (foldl (\<lambda>d kv. dict_set d (fst kv) (snd kv)) d0 kvs))"
  by (induction kvs arbitrary: d0) (simp_all add: dict_set_distinct)

lemma dict_of_keys: "set (dict_keys (dict_of kvs)) = set (map fst kvs)"
  unfolding dict_of_def dict_keys_def by (simp only: dict_fold_keys) simp

lemma dict_of_distinct: "distinct (dict_keys (dict_of kvs))"
  unfolding dict_of_def dict_keys_def by (rule dict_fold_distinct) simp

lemma dict_of_length: "length (dict_of kvs) = card (set (map fst kvs))"
proof -
  have "length (dict_of kvs) = length (dict_keys (dict_of kvs))"
    by (simp add: dict_keys_def)
  also have "\<dots> = card (set (dict_keys (dict_of kvs)))"
    by (rule distinct_card [symmetric]) (rule dict_of_distinct)
  finally show ?thesis by (simp only: dict_of_keys)
qed

lemma dict_of_zip_range_length:
  "length (dict_of (zip pos [0..<length pos])) = card (set pos)"
  by (simp add: dict_of_length)

section \<open>The scheduler, step by step\<close>

lemma fold_max_Max: "fold max xs (x::nat) = Max (set (x # xs))"
  by (rule Max.set_eq_fold [symmetric])

lemma fold_min_Min: "fold min xs (x::nat) = Min (set (x # xs))"
  by (rule Min.set_eq_fold [symmetric])

lemma py_max_nonempty: "xs \<noteq> [] \<Longrightarrow> py_max xs = Inr (Max (set xs))"
  by (cases xs) (simp_all add: fold_max_Max del: list.set)

lemma py_min_nonempty: "xs \<noteq> [] \<Longrightarrow> py_min xs = Inr (Min (set xs))"
  by (cases xs) (simp_all add: fold_min_Min del: list.set)

lemma py_max_Inr: "py_max xs = Inr m \<Longrightarrow> xs \<noteq> [] \<and> m = Max (set xs)"
  using py_max_nonempty [of xs] by (cases xs) auto

lemma py_min_Inr: "py_min xs = Inr m \<Longrightarrow> xs \<noteq> [] \<and> m = Min (set xs)"
  using py_min_nonempty [of xs] by (cases xs) auto

lemma row_append_Inr:
  assumes "row_append Q j e = Inr Q'"
  shows "j < length Q" and "Q' = Q[j := Q ! j @ [e]]"
  using assms by (auto simp: row_append_def split: if_splits)

lemma append_nones_Inr:
  "append_nones Q js = Inr Q' \<Longrightarrow> distinct js \<Longrightarrow>
     length Q' = length Q \<and> (\<forall>j\<in>set js. j < length Q)
     \<and> (\<forall>i<length Q. Q' ! i = (if i \<in> set js then Q ! i @ [None] else Q ! i))"
proof (induction js arbitrary: Q)
  case Nil
  then show ?case by simp
next
  case (Cons j js)
  from Cons.prems(1) obtain Q1 where r: "row_append Q j None = Inr Q1"
    and rest: "append_nones Q1 js = Inr Q'"
    by (auto split: sum.splits)
  from r have j: "j < length Q" and Q1: "Q1 = Q[j := Q ! j @ [None]]"
    by (rule row_append_Inr)+
  from Cons.prems(2) have dj: "j \<notin> set js" and d: "distinct js" by auto
  from Cons.IH [OF rest d] have
    l: "length Q' = length Q1" and b: "\<forall>j\<in>set js. j < length Q1"
    and n: "\<forall>i<length Q1. Q' ! i = (if i \<in> set js then Q1 ! i @ [None] else Q1 ! i)"
    by auto
  have lq: "length Q1 = length Q" using Q1 by simp
  show ?case
  proof (intro conjI allI impI ballI)
    show "length Q' = length Q" using l lq by simp
  next
    fix i assume "i \<in> set (j # js)"
    then show "i < length Q" using j b lq by auto
  next
    fix i assume i: "i < length Q"
    show "Q' ! i = (if i \<in> set (j # js) then Q ! i @ [None] else Q ! i)"
    proof (cases "i = j")
      case True
      then show ?thesis using n i lq dj Q1 by simp
    next
      case False
      then show ?thesis using n i lq Q1 by simp
    qed
  qed
qed

lemma insert_funpow:
  "p \<le> length row \<Longrightarrow>
   ((\<lambda>r. list_insert r p x) ^^ k) row = take p row @ replicate k x @ drop p row"
proof (induction k)
  case 0
  then show ?case by simp
next
  case (Suc k)
  then have "((\<lambda>r. list_insert r p x) ^^ Suc k) row
               = list_insert (take p row @ replicate k x @ drop p row) p x"
    by simp
  also have "\<dots> = take p row @ x # replicate k x @ drop p row"
    using Suc.prems by (simp add: list_insert_def)
  finally show ?case by simp
qed

lemma justify_eq:
  assumes "row \<noteq> []" and "length row \<le> m"
  shows "justify m row = butlast row @ replicate (m - length row) None @ [last row]"
proof -
  have t: "take (length row - 1) row = butlast row"
    by (simp add: butlast_conv_take)
  have d: "drop (length row - 1) row = [last row]"
    using assms(1) by (metis append_butlast_last_id append_eq_conv_conj length_butlast)
  have k: "nat \<bar>int (length row) - int m\<bar> = m - length row"
    using assms(2) by simp
  show ?thesis
  proof (cases "length row = m")
    case True
    then show ?thesis using assms(1) by (simp add: justify_def)
  next
    case False
    have "justify m row = ((\<lambda>r. list_insert r (length row - 1) None) ^^ (m - length row)) row"
      using False by (simp only: justify_def Let_def k) simp
    also have "\<dots> = take (length row - 1) row @ replicate (m - length row) None
                         @ drop (length row - 1) row"
      by (rule insert_funpow) simp
    finally show ?thesis by (simp only: t d)
  qed
qed

lemma fold_justify:
  "distinct js \<Longrightarrow>
   length (fold (\<lambda>j Q. Q[j := f (Q ! j)]) js Q) = length Q
   \<and> (\<forall>i<length Q. fold (\<lambda>j Q. Q[j := f (Q ! j)]) js Q ! i
                      = (if i \<in> set js then f (Q ! i) else Q ! i))"
proof (induction js arbitrary: Q)
  case Nil
  then show ?case by simp
next
  case (Cons j js)
  then have dj: "j \<notin> set js" and d: "distinct js" by auto
  let ?Q1 = "Q[j := f (Q ! j)]"
  note ih = Cons.IH [OF d, of ?Q1]
  show ?case
  proof (intro conjI allI impI)
    show "length (fold (\<lambda>j Q. Q[j := f (Q ! j)]) (j # js) Q) = length Q"
      using ih by simp
  next
    fix i assume i: "i < length Q"
    show "fold (\<lambda>j Q. Q[j := f (Q ! j)]) (j # js) Q ! i
            = (if i \<in> set (j # js) then f (Q ! i) else Q ! i)"
    proof (cases "i = j")
      case True
      then show ?thesis using ih i dj by simp
    next
      case False
      then show ?thesis using ih i by simp
    qed
  qed
qed

lemma schedule_span_Inr:
  assumes "schedule_span (Q, u) g = Inr (Q', u')"
  defines "lo \<equiv> Min (set (positions g))" and "hi \<equiv> Max (set (positions g))"
  shows "positions g \<noteq> []"
    and "hi < length Q"
    and "length Q' = length Q"
    and "u' = (if is_TwoQubitGate g then fold (\<lambda>pos u. used_add u pos) (positions g) u else u)"
    and "\<exists>m. \<forall>j<length Q.
            Q' ! j = (if lo \<le> j \<and> j \<le> hi
                      then Q ! j @ replicate (m - Suc (length (Q ! j))) None
                             @ [if j = lo then Some g else None]
                      else Q ! j)
            \<and> (lo \<le> j \<and> j \<le> hi \<longrightarrow> length (Q ! j) < m)"
proof -
  from assms(1) obtain pos1 pos2 Q1 Q2 maxlayer where
    p1: "py_min (positions g) = Inr pos1" and p2: "py_max (positions g) = Inr pos2"
    and r: "row_append Q pos1 (Some g) = Inr Q1"
    and a: "append_nones Q1 [pos1 + 1 ..< pos2 + 1] = Inr Q2"
    and m: "py_max (map (\<lambda>j. length (Q2 ! j)) [pos1 ..< pos2 + 1]) = Inr maxlayer"
    and Q': "Q' = fold (\<lambda>j Q. Q[j := justify maxlayer (Q ! j)]) [pos1 ..< pos2 + 1] Q2"
    and u': "u' = (if is_TwoQubitGate g then fold (\<lambda>pos u. used_add u pos) (positions g) u else u)"
    unfolding schedule_span_def by (auto simp: Let_def split: sum.splits)
  from py_min_Inr [OF p1] py_max_Inr [OF p2] have ne: "positions g \<noteq> []"
    and lo: "pos1 = lo" and hi: "pos2 = hi" by (simp_all add: lo_def hi_def)
  have lohi: "lo \<le> hi" unfolding lo_def hi_def using ne by (simp add: Min_le_iff)
  from row_append_Inr [OF r] have l1: "lo < length Q" and Q1: "Q1 = Q[lo := Q ! lo @ [Some g]]"
    by (simp_all add: lo)
  have lQ1: "length Q1 = length Q" using Q1 by simp
  from append_nones_Inr [OF a] have lQ2: "length Q2 = length Q"
    and b: "\<forall>j\<in>set [lo + 1 ..< hi + 1]. j < length Q"
    and n2: "\<forall>i<length Q. Q2 ! i = (if i \<in> set [lo + 1 ..< hi + 1] then Q1 ! i @ [None] else Q1 ! i)"
    by (simp_all add: lo hi lQ1)
  have hiQ: "hi < length Q"
  proof (cases "lo = hi")
    case True
    then show ?thesis using l1 by simp
  next
    case False
    then have "hi \<in> set [lo + 1 ..< hi + 1]" using lohi by auto
    then show ?thesis using b by blast
  qed
  have Q2j: "Q2 ! j = Q ! j @ [if j = lo then Some g else None]"
    if "lo \<le> j" "j \<le> hi" for j
  proof -
    have j: "j < length Q" using that hiQ by simp
    show ?thesis
    proof (cases "j = lo")
      case True
      then show ?thesis using n2 j Q1 by simp
    next
      case False
      then have "j \<in> set [lo + 1 ..< hi + 1]" using that by auto
      then show ?thesis using n2 j Q1 False by simp
    qed
  qed
  have Q2o: "Q2 ! j = Q ! j" if "j < length Q" "\<not> (lo \<le> j \<and> j \<le> hi)" for j
  proof -
    have "j \<notin> set [lo + 1 ..< hi + 1]" "j \<noteq> lo" using that lohi by auto
    then show ?thesis using n2 that(1) Q1 by simp
  qed
  from py_max_Inr [OF m] have
    ml: "maxlayer = Max (set (map (\<lambda>j. length (Q2 ! j)) [lo ..< hi + 1]))"
    by (simp add: lo hi)
  have le: "length (Q2 ! j) \<le> maxlayer" if "lo \<le> j" "j \<le> hi" for j
  proof -
    have "j \<in> set [lo ..< hi + 1]" using that by auto
    then have "length (Q2 ! j) \<in> set (map (\<lambda>j. length (Q2 ! j)) [lo ..< hi + 1])"
      unfolding set_map by (rule imageI)
    then show ?thesis unfolding ml by (intro Max_ge) simp_all
  qed
  have fj: "length Q' = length Q2
            \<and> (\<forall>i<length Q2. Q' ! i = (if i \<in> set [lo ..< hi + 1] then justify maxlayer (Q2 ! i) else Q2 ! i))"
    unfolding Q' lo hi by (rule fold_justify) simp
  have fjn: "Q' ! i = (if i \<in> set [lo ..< hi + 1] then justify maxlayer (Q2 ! i) else Q2 ! i)"
    if "i < length Q" for i
    using fj that lQ2 by simp
  show "positions g \<noteq> []" by (rule ne)
  show "hi < length Q" by (rule hiQ)
  show "length Q' = length Q" using fj lQ2 by simp
  show "u' = (if is_TwoQubitGate g then fold (\<lambda>pos u. used_add u pos) (positions g) u else u)"
    by (rule u')
  show "\<exists>m. \<forall>j<length Q.
            Q' ! j = (if lo \<le> j \<and> j \<le> hi
                      then Q ! j @ replicate (m - Suc (length (Q ! j))) None
                             @ [if j = lo then Some g else None]
                      else Q ! j)
            \<and> (lo \<le> j \<and> j \<le> hi \<longrightarrow> length (Q ! j) < m)"
  proof (intro exI [of _ maxlayer] allI impI)
    fix j assume j: "j < length Q"
    show "Q' ! j = (if lo \<le> j \<and> j \<le> hi
                      then Q ! j @ replicate (maxlayer - Suc (length (Q ! j))) None
                             @ [if j = lo then Some g else None]
                      else Q ! j)
            \<and> (lo \<le> j \<and> j \<le> hi \<longrightarrow> length (Q ! j) < maxlayer)"
    proof (cases "lo \<le> j \<and> j \<le> hi")
      case True
      then have in_span: "j \<in> set [lo ..< hi + 1]" by auto
      have q2: "Q2 ! j = Q ! j @ [if j = lo then Some g else None]"
        using Q2j True by blast
      have lej: "length (Q2 ! j) \<le> maxlayer" using le True by blast
      have "Q' ! j = justify maxlayer (Q2 ! j)" by (simp only: fjn [OF j] in_span if_True)
      also have "\<dots> = butlast (Q2 ! j) @ replicate (maxlayer - length (Q2 ! j)) None @ [last (Q2 ! j)]"
        by (rule justify_eq) (use q2 lej in simp_all)
      also have "\<dots> = Q ! j @ replicate (maxlayer - Suc (length (Q ! j))) None
                          @ [if j = lo then Some g else None]"
        by (simp add: q2)
      finally show ?thesis using True lej q2 by simp
    next
      case False
      then have "j \<notin> set [lo ..< hi + 1]" by auto
      then have "Q' ! j = Q2 ! j" by (simp only: fjn [OF j] if_False)
      then show ?thesis using Q2o [OF j False] False by auto
    qed
  qed
qed

lemma extends_refl: "extends Q Q"
  by (simp add: extends_def)

lemma extends_trans:
  assumes "extends Q1 Q2" and "extends Q2 Q3"
  shows "extends Q1 Q3"
  unfolding extends_def
proof (intro conjI allI impI)
  show "length Q3 = length Q1" using assms by (simp add: extends_def)
next
  fix j assume j: "j < length Q1"
  then have j2: "j < length Q2" using assms(1) by (simp add: extends_def)
  have a: "take (length (Q1 ! j)) (Q2 ! j) = Q1 ! j" using assms(1) j by (simp add: extends_def)
  have b: "take (length (Q2 ! j)) (Q3 ! j) = Q2 ! j" using assms(2) j2 by (simp add: extends_def)
  have le: "length (Q1 ! j) \<le> length (Q2 ! j)"
    using a by (metis length_take min.cobounded1)
  have "take (length (Q1 ! j)) (Q3 ! j) = take (length (Q1 ! j)) (take (length (Q2 ! j)) (Q3 ! j))"
    using le by (simp add: min_def)
  then show "take (length (Q1 ! j)) (Q3 ! j) = Q1 ! j" by (simp only: b a)
qed

lemma extends_length_le: "extends Q Q' \<Longrightarrow> j < length Q \<Longrightarrow> length (Q ! j) \<le> length (Q' ! j)"
  unfolding extends_def by (metis length_take min.cobounded1)

lemma used_add_set: "set (used_add u p) = insert p (set u)"
  by (auto simp: used_add_def)

lemma used_add_distinct: "distinct u \<Longrightarrow> distinct (used_add u p)"
  by (simp add: used_add_def)

lemma fold_used_add_set: "set (fold (\<lambda>p u. used_add u p) ps u) = set u \<union> set ps"
  by (induction ps arbitrary: u) (auto simp: used_add_set)

lemma fold_used_add_distinct: "distinct u \<Longrightarrow> distinct (fold (\<lambda>p u. used_add u p) ps u)"
  by (induction ps arbitrary: u) (simp_all add: used_add_distinct)

lemma schedule_span_extends:
  assumes "schedule_span (Q, u) g = Inr (Q', u')"
  shows "extends Q Q'"
proof -
  note s = schedule_span_Inr [OF assms]
  from s(5) obtain m where m: "\<forall>j<length Q.
            Q' ! j = (if Min (set (positions g)) \<le> j \<and> j \<le> Max (set (positions g))
                      then Q ! j @ replicate (m - Suc (length (Q ! j))) None
                             @ [if j = Min (set (positions g)) then Some g else None]
                      else Q ! j)
            \<and> (Min (set (positions g)) \<le> j \<and> j \<le> Max (set (positions g)) \<longrightarrow> length (Q ! j) < m)"
    by blast
  show ?thesis
    unfolding extends_def
  proof (intro conjI allI impI)
    show "length Q' = length Q" by (rule s(3))
  next
    fix j assume "j < length Q"
    with m show "take (length (Q ! j)) (Q' ! j) = Q ! j" by simp
  qed
qed

lemma schedule_gate_Inr:
  assumes "schedule_gate (Q, u) g = Inr (Q', u')"
  shows "extends Q Q'"
    and "set u \<subseteq> set u'"
    and "distinct u \<Longrightarrow> distinct u'"
    and "is_TwoQubitGate g \<Longrightarrow> set (positions g) \<subseteq> set u'"
proof -
  consider (single) "is_SingleQubitGate g"
    | (span) "\<not> is_SingleQubitGate g" "is_Barrier g \<or> is_TwoQubitGate g"
    | (other) "\<not> is_SingleQubitGate g" "\<not> (is_Barrier g \<or> is_TwoQubitGate g)"
    by blast
  then have "extends Q Q' \<and> set u \<subseteq> set u' \<and> (distinct u \<longrightarrow> distinct u')
             \<and> (is_TwoQubitGate g \<longrightarrow> set (positions g) \<subseteq> set u')"
  proof cases
    case single
    with assms obtain Q1 where r: "row_append Q (hd (positions g)) (Some g) = Inr Q1"
      and e: "Q' = Q1" "u' = used_add u (hd (positions g))"
      by (auto simp: schedule_gate_def split: sum.splits)
    from row_append_Inr [OF r] have "extends Q Q1"
      by (auto simp: extends_def nth_list_update)
    moreover have "\<not> is_TwoQubitGate g" using single by (cases g) simp_all
    ultimately show ?thesis using e by (auto simp: used_add_set used_add_distinct)
  next
    case span
    with assms have sp: "schedule_span (Q, u) g = Inr (Q', u')"
      by (simp add: schedule_gate_def)
    note s = schedule_span_Inr [OF sp]
    show ?thesis
      using schedule_span_extends [OF sp] s(4)
      by (auto simp: fold_used_add_set fold_used_add_distinct)
  next
    case other
    with assms show ?thesis by (auto simp: schedule_gate_def extends_refl)
  qed
  then show "extends Q Q'" "set u \<subseteq> set u'" "distinct u \<Longrightarrow> distinct u'"
    "is_TwoQubitGate g \<Longrightarrow> set (positions g) \<subseteq> set u'" by blast+
qed

lemma schedule_gates_Inr:
  "schedule_gates (Q, u) gs = Inr (Q', u') \<Longrightarrow>
     extends Q Q' \<and> set u \<subseteq> set u' \<and> (distinct u \<longrightarrow> distinct u')"
proof (induction gs arbitrary: Q u)
  case Nil
  then show ?case by (simp add: extends_refl)
next
  case (Cons g gs)
  from Cons.prems obtain Q1 u1 where g: "schedule_gate (Q, u) g = Inr (Q1, u1)"
    and rest: "schedule_gates (Q1, u1) gs = Inr (Q', u')"
    by (auto split: sum.splits)
  from schedule_gate_Inr [OF g] Cons.IH [OF rest] show ?case
    by (auto intro: extends_trans)
qed

lemma schedule_gates_append:
  "schedule_gates st (xs @ ys) =
     (case schedule_gates st xs of Inl e \<Rightarrow> Inl e | Inr st' \<Rightarrow> schedule_gates st' ys)"
  by (induction xs arbitrary: st) (auto split: sum.splits)

lemma filter_upt_eq_sorted:
  assumes "sorted us" and "distinct us"
    and "length (filter (\<lambda>q. q \<in> set us) [0 ..< n]) = length us"
  shows "filter (\<lambda>q. q \<in> set us) [0 ..< n] = us"
proof -
  let ?F = "filter (\<lambda>q. q \<in> set us) [0 ..< n]"
  have dF: "distinct ?F" by simp
  have sF: "sorted ?F" by (rule sorted_wrt_filter) simp
  have sub: "set ?F \<subseteq> set us" by auto
  have "card (set ?F) = length ?F" using dF by (rule distinct_card)
  also have "\<dots> = card (set us)" using assms(2,3) by (simp add: distinct_card)
  finally have "set ?F = set us" using sub by (intro card_subset_eq) simp_all
  then show ?thesis
    using sF dF assms(1,2) by (intro sorted_distinct_set_unique)
qed

lemma map_zip_same:
  "map (\<lambda>(q, row). h q row) (zip us (map f us)) = map (\<lambda>q. h q (f q)) us"
  by (induction us) simp_all

lemma layered_circuit_Inr:
  assumes "layered_circuit c = Inr (lay, c')"
  shows "\<exists>Q used maxdepth.
           schedule_gates (replicate (num c) [], []) (gates c) = Inr (Q, used)
         \<and> py_max (map length Q) = Inr maxdepth
         \<and> length Q = num c
         \<and> c' = c\<lparr>circuit := lay, used_qubits := sort (fold (\<lambda>m u. used_add u m) (dict_keys (measures c)) used)\<rparr>
         \<and> set used \<subseteq> set (used_qubits c')
         \<and> set (used_qubits c') \<subseteq> {0 ..< num c}
         \<and> sorted (used_qubits c') \<and> distinct (used_qubits c')
         \<and> lay = map (\<lambda>q. QubitIndex q # map cell_of (Q ! q @ replicate (maxdepth - length (Q ! q)) None))
                      (used_qubits c')"
proof -
  from assms obtain Q used maxdepth where
    sg: "schedule_gates (replicate (num c) [], []) (gates c) = Inr (Q, used)"
    and md: "py_max (map length Q) = Inr maxdepth"
    and vs: "vstack_index (sort (fold (\<lambda>m u. used_add u m) (dict_keys (measures c)) used))
               (map (\<lambda>old_qi. map (\<lambda>gs. gs @ replicate (maxdepth - length gs) None) Q ! old_qi)
                 (filter (\<lambda>old_qi. old_qi \<in> set (sort (fold (\<lambda>m u. used_add u m) (dict_keys (measures c)) used)))
                    [0 ..< length (map (\<lambda>gs. gs @ replicate (maxdepth - length gs) None) Q)]))
             = Inr lay"
    and c': "c' = c\<lparr>circuit := lay, used_qubits := sort (fold (\<lambda>m u. used_add u m) (dict_keys (measures c)) used)\<rparr>"
    unfolding layered_circuit_def by (auto simp: Let_def split: sum.splits prod.splits)
  define us where "us = sort (fold (\<lambda>m u. used_add u m) (dict_keys (measures c)) used)"
  define pad where "pad = (\<lambda>gs :: gate option list. gs @ replicate (maxdepth - length gs) None)"
  from schedule_gates_Inr [OF sg] have ext: "extends (replicate (num c) []) Q"
    and du: "distinct used" by simp_all
  have lQ: "length Q = num c" using ext by (simp add: extends_def)
  have sus: "sorted us" and dus: "distinct us"
    unfolding us_def using du by (simp_all add: fold_used_add_distinct)
  have uu: "set used \<subseteq> set us" unfolding us_def by (simp add: fold_used_add_set)
  from vs have len: "length (filter (\<lambda>q. q \<in> set us) [0 ..< num c]) = length us"
    and lay: "lay = map (\<lambda>(q, row). QubitIndex q # map cell_of row)
                     (zip us (map (\<lambda>q. map pad Q ! q) (filter (\<lambda>q. q \<in> set us) [0 ..< num c])))"
    unfolding vstack_index_def us_def [symmetric] pad_def [symmetric]
    by (auto simp: lQ split: if_splits)
  have F: "filter (\<lambda>q. q \<in> set us) [0 ..< num c] = us"
    using sus dus len by (rule filter_upt_eq_sorted)
  have sub: "set us \<subseteq> {0 ..< num c}"
  proof
    fix q assume "q \<in> set us"
    then have "q \<in> set (filter (\<lambda>q. q \<in> set us) [0 ..< num c])" by (simp only: F)
    then show "q \<in> {0 ..< num c}" by simp
  qed
  have "lay = map (\<lambda>q. QubitIndex q # map cell_of (map pad Q ! q)) us"
    unfolding lay F by (rule map_zip_same)
  also have "\<dots> = map (\<lambda>q. QubitIndex q # map cell_of (pad (Q ! q))) us"
    using sub lQ by (intro map_cong) auto
  finally have lay': "lay = map (\<lambda>q. QubitIndex q # map cell_of (Q ! q @ replicate (maxdepth - length (Q ! q)) None)) us"
    by (simp add: pad_def)
  have uq: "used_qubits c' = us" using c' by (simp add: us_def)
  show ?thesis
  proof (intro exI conjI)
    show "schedule_gates (replicate (num c) [], []) (gates c) = Inr (Q, used)" by (rule sg)
    show "py_max (map length Q) = Inr maxdepth" by (rule md)
    show "length Q = num c" by (rule lQ)
    show "c' = c\<lparr>circuit := lay, used_qubits := sort (fold (\<lambda>m u. used_add u m) (dict_keys (measures c)) used)\<rparr>"
      by (rule c')
    show "set used \<subseteq> set (used_qubits c')" using uu by (simp only: uq)
    show "set (used_qubits c') \<subseteq> {0 ..< num c}" using sub by (simp only: uq)
    show "sorted (used_qubits c')" using sus by (simp only: uq)
    show "distinct (used_qubits c')" using dus by (simp only: uq)
    show "lay = map (\<lambda>q. QubitIndex q # map cell_of (Q ! q @ replicate (maxdepth - length (Q ! q)) None))
                      (used_qubits c')"
      using lay' by (simp only: uq)
  qed
qed

section \<open>The layered layout\<close>

lemma example_layered: "layered_circuit example_circuit = Inr (example_layout, example_result)"
  by code_simp

text \<open>
  C8.  When \<^verbatim>\<open>layered_circuit\<close> returns, every row of the layout has length one plus
  the greatest depth of a wire after scheduling; row \<open>i\<close> starts with the \<open>i\<close>-th active
  qubit, lies in the register, and continues with exactly that qubit's wire, padded with
  \<^verbatim>\<open>None\<close>; and the active qubits are strictly ascending.
\<close>

theorem layout_rows_uniform:
  assumes "layered_circuit c = Inr (lay, c')"
  shows "\<exists>Q used.
           schedule_gates (replicate (num c) [], []) (gates c) = Inr (Q, used) \<and> Q \<noteq> []
         \<and> (\<forall>row\<in>set lay. length row = 1 + Max (set (map length Q)))
         \<and> length lay = length (used_qubits c')
         \<and> (\<forall>i<length lay.
               used_qubits c' ! i < num c
             \<and> lay ! i ! 0 = QubitIndex (used_qubits c' ! i)
             \<and> tl (lay ! i) = map cell_of (Q ! (used_qubits c' ! i))
                                @ replicate (Max (set (map length Q)) - length (Q ! (used_qubits c' ! i))) NoneCell)
         \<and> sorted_wrt (<) (used_qubits c')"
proof -
  from layered_circuit_Inr [OF assms] obtain Q used maxdepth where
    sg: "schedule_gates (replicate (num c) [], []) (gates c) = Inr (Q, used)"
    and md: "py_max (map length Q) = Inr maxdepth"
    and lQ: "length Q = num c"
    and sub: "set (used_qubits c') \<subseteq> {0 ..< num c}"
    and srt: "sorted (used_qubits c')" and dst: "distinct (used_qubits c')"
    and lay: "lay = map (\<lambda>q. QubitIndex q # map cell_of (Q ! q @ replicate (maxdepth - length (Q ! q)) None))
                      (used_qubits c')"
    by blast
  from py_max_Inr [OF md] have ne: "Q \<noteq> []" and mx: "maxdepth = Max (set (map length Q))"
    by simp_all
  have le: "length (Q ! q) \<le> maxdepth" if "q < num c" for q
  proof -
    have "Q ! q \<in> set Q" using that lQ by simp
    then have "length (Q ! q) \<in> set (map length Q)" unfolding set_map by (rule imageI)
    then show ?thesis unfolding mx by (intro Max_ge) simp_all
  qed
  have rows: "\<forall>row\<in>set lay. length row = 1 + maxdepth"
  proof
    fix row assume "row \<in> set lay"
    then obtain q where q: "q \<in> set (used_qubits c')"
      and row: "row = QubitIndex q # map cell_of (Q ! q @ replicate (maxdepth - length (Q ! q)) None)"
      unfolding lay by auto
    from q sub have "q < num c" by auto
    from le [OF this] show "length row = 1 + maxdepth" by (simp add: row)
  qed
  have ll: "length lay = length (used_qubits c')" by (simp add: lay)
  have each: "\<forall>i<length lay.
               used_qubits c' ! i < num c
             \<and> lay ! i ! 0 = QubitIndex (used_qubits c' ! i)
             \<and> tl (lay ! i) = map cell_of (Q ! (used_qubits c' ! i))
                                @ replicate (maxdepth - length (Q ! (used_qubits c' ! i))) NoneCell"
  proof (intro allI impI)
    fix i assume i: "i < length lay"
    then have iu: "i < length (used_qubits c')" by (simp only: ll)
    then have "used_qubits c' ! i \<in> set (used_qubits c')" by simp
    with sub have b: "used_qubits c' ! i < num c" by auto
    have "lay ! i = QubitIndex (used_qubits c' ! i)
                     # map cell_of (Q ! (used_qubits c' ! i)
                         @ replicate (maxdepth - length (Q ! (used_qubits c' ! i))) None)"
      unfolding lay using iu by simp
    then show "used_qubits c' ! i < num c
             \<and> lay ! i ! 0 = QubitIndex (used_qubits c' ! i)
             \<and> tl (lay ! i) = map cell_of (Q ! (used_qubits c' ! i))
                                @ replicate (maxdepth - length (Q ! (used_qubits c' ! i))) NoneCell"
      using b by simp
  qed
  have asc: "sorted_wrt (<) (used_qubits c')"
    using srt dst by (simp add: strict_sorted_iff)
  show ?thesis
    using sg ne rows ll each asc unfolding mx by blast
qed

theorem layout_rows_uniform_witness:
  "layered_circuit example_circuit = Inr (example_layout, example_result)
   \<and> (\<exists>Q used.
           schedule_gates (replicate (num example_circuit) [], []) (gates example_circuit) = Inr (Q, used)
         \<and> Q \<noteq> []
         \<and> (\<forall>row\<in>set example_layout. length row = 1 + Max (set (map length Q)))
         \<and> length example_layout = length (used_qubits example_result)
         \<and> (\<forall>i<length example_layout.
               used_qubits example_result ! i < num example_circuit
             \<and> example_layout ! i ! 0 = QubitIndex (used_qubits example_result ! i)
             \<and> tl (example_layout ! i) = map cell_of (Q ! (used_qubits example_result ! i))
                                @ replicate (Max (set (map length Q)) - length (Q ! (used_qubits example_result ! i))) NoneCell)
         \<and> sorted_wrt (<) (used_qubits example_result))"
  using example_layered layout_rows_uniform [OF example_layered] by (rule conjI)

text \<open>
  C2.  Let a two-qubit gate \<open>g\<close> of the gate sequence have the least position \<open>lo\<close> and
  the greatest \<open>hi\<close>.  Right after the scheduler has placed \<open>g\<close>, wires \<open>lo\<close> and \<open>hi\<close>
  have the same length \<open>k + 1\<close>, with \<open>g\<close> as the last entry of wire \<open>lo\<close> and the
  placeholder as the last entry of wire \<open>hi\<close>; and the rows of the returned layout headed
  by \<open>lo\<close> and \<open>hi\<close> begin with these wires, so both entries stay in the same column
  (\<open>k + 1\<close>, after the index column).
\<close>

theorem layering_left_justified:
  assumes "layered_circuit c = Inr (lay, c')"
    and "gates c = gs1 @ g # gs2"
    and "is_TwoQubitGate g"
  shows "\<exists>lo hi Q1 u1 k rlo rhi.
           py_min (positions g) = Inr lo \<and> py_max (positions g) = Inr hi
         \<and> schedule_gates (replicate (num c) [], []) (gs1 @ [g]) = Inr (Q1, u1)
         \<and> length (Q1 ! lo) = Suc k \<and> length (Q1 ! hi) = Suc k
         \<and> Q1 ! lo ! k = Some g \<and> (lo \<noteq> hi \<longrightarrow> Q1 ! hi ! k = None)
         \<and> rlo \<in> set lay \<and> rhi \<in> set lay
         \<and> rlo ! 0 = QubitIndex lo \<and> rhi ! 0 = QubitIndex hi
         \<and> take (Suc k) (tl rlo) = map cell_of (Q1 ! lo)
         \<and> take (Suc k) (tl rhi) = map cell_of (Q1 ! hi)
         \<and> rlo ! Suc k = GateRef g \<and> (lo \<noteq> hi \<longrightarrow> rhi ! Suc k = NoneCell)"
proof -
  from layered_circuit_Inr [OF assms(1)] obtain Q used maxdepth where
    sg: "schedule_gates (replicate (num c) [], []) (gates c) = Inr (Q, used)"
    and lQ: "length Q = num c"
    and uu: "set used \<subseteq> set (used_qubits c')"
    and lay: "lay = map (\<lambda>q. QubitIndex q # map cell_of (Q ! q @ replicate (maxdepth - length (Q ! q)) None))
                      (used_qubits c')"
    by blast
  have split: "gates c = gs1 @ [g] @ gs2" using assms(2) by simp
  from sg obtain Q0 u0 Q1 u1 where
    s0: "schedule_gates (replicate (num c) [], []) gs1 = Inr (Q0, u0)"
    and s1: "schedule_gate (Q0, u0) g = Inr (Q1, u1)"
    and s2: "schedule_gates (Q1, u1) gs2 = Inr (Q, used)"
    unfolding split schedule_gates_append by (auto split: sum.splits)
  have s01: "schedule_gates (replicate (num c) [], []) (gs1 @ [g]) = Inr (Q1, u1)"
    unfolding schedule_gates_append using s0 s1 by simp
  have nsingle: "\<not> is_SingleQubitGate g" using assms(3) by (cases g) simp_all
  have sp: "schedule_span (Q0, u0) g = Inr (Q1, u1)"
    using s1 nsingle assms(3) by (simp add: schedule_gate_def)
  define lo where "lo = Min (set (positions g))"
  define hi where "hi = Max (set (positions g))"
  note s = schedule_span_Inr [OF sp, folded lo_def hi_def]
  from s(5) obtain m where m: "\<forall>j<length Q0.
            Q1 ! j = (if lo \<le> j \<and> j \<le> hi
                      then Q0 ! j @ replicate (m - Suc (length (Q0 ! j))) None
                             @ [if j = lo then Some g else None]
                      else Q0 ! j)
            \<and> (lo \<le> j \<and> j \<le> hi \<longrightarrow> length (Q0 ! j) < m)"
    by blast
  have ne: "positions g \<noteq> []" by (rule s(1))
  have lohi: "lo \<le> hi" unfolding lo_def hi_def using ne by (simp add: Min_le_iff)
  have pmin: "py_min (positions g) = Inr lo" unfolding lo_def by (rule py_min_nonempty [OF ne])
  have pmax: "py_max (positions g) = Inr hi" unfolding hi_def by (rule py_max_nonempty [OF ne])
  have lo_in: "lo \<in> set (positions g)" unfolding lo_def using ne by (intro Min_in) simp_all
  have hi_in: "hi \<in> set (positions g)" unfolding hi_def using ne by (intro Max_in) simp_all
  from schedule_gate_Inr(4) [OF s1 assms(3)] schedule_gates_Inr [OF s2] uu
  have act: "set (positions g) \<subseteq> set (used_qubits c')" by blast
  have ext: "extends Q1 Q" using schedule_gates_Inr [OF s2] by simp
  have lQ1: "length Q1 = length Q0" by (rule s(3))
  have lQQ: "length Q = length Q1" using ext by (simp add: extends_def)
  have wire: "length (Q1 ! w) = m \<and> 0 < m
              \<and> Q1 ! w ! (m - 1) = (if w = lo then Some g else None)
              \<and> QubitIndex w # map cell_of (Q ! w @ replicate (maxdepth - length (Q ! w)) None) \<in> set lay
              \<and> take m (map cell_of (Q ! w @ replicate (maxdepth - length (Q ! w)) None))
                  = map cell_of (Q1 ! w)"
    if w: "lo \<le> w" "w \<le> hi" "w \<in> set (positions g)" for w
  proof -
    have wl: "w < length Q0" using w(2) s(2) by simp
    from m wl w have row: "Q1 ! w = Q0 ! w @ replicate (m - Suc (length (Q0 ! w))) None
                             @ [if w = lo then Some g else None]"
      and lt: "length (Q0 ! w) < m" by simp_all
    have len: "length (Q1 ! w) = m" using lt by (simp add: row)
    have pos: "0 < m" using lt by simp
    have lastw: "Q1 ! w ! (m - 1) = (if w = lo then Some g else None)"
    proof -
      have "Q1 ! w ! (m - 1) = last (Q1 ! w)"
        using len pos by (metis last_conv_nth length_0_conv less_numeral_extra(3))
      then show ?thesis by (simp add: row)
    qed
    have "w \<in> set (used_qubits c')" using act w(3) by blast
    then have inlay: "QubitIndex w # map cell_of (Q ! w @ replicate (maxdepth - length (Q ! w)) None) \<in> set lay"
      unfolding lay by simp
    have tk: "take (length (Q1 ! w)) (Q ! w) = Q1 ! w"
      using ext wl lQ1 by (simp add: extends_def)
    have lew: "m \<le> length (Q ! w)"
      using extends_length_le [OF ext, of w] wl lQ1 len by simp
    have "take m (map cell_of (Q ! w @ replicate (maxdepth - length (Q ! w)) None))
            = map cell_of (take m (Q ! w))"
      using lew by (simp add: take_map)
    also have "\<dots> = map cell_of (Q1 ! w)" using tk len by simp
    finally show ?thesis using len pos lastw inlay by blast
  qed
  note wlo = wire [OF order_refl lohi lo_in]
  note whi = wire [OF lohi order_refl hi_in]
  define k where "k = m - 1"
  have mk: "m = Suc k" using wlo by (simp add: k_def)
  define rlo where "rlo = QubitIndex lo # map cell_of (Q ! lo @ replicate (maxdepth - length (Q ! lo)) None)"
  define rhi where "rhi = QubitIndex hi # map cell_of (Q ! hi @ replicate (maxdepth - length (Q ! hi)) None)"
  have tlo: "take (Suc k) (tl rlo) = map cell_of (Q1 ! lo)" using wlo by (simp add: rlo_def mk)
  have thi: "take (Suc k) (tl rhi) = map cell_of (Q1 ! hi)" using whi by (simp add: rhi_def mk)
  have glo: "Q1 ! lo ! k = Some g" using wlo by (simp add: mk)
  have ghi: "lo \<noteq> hi \<longrightarrow> Q1 ! hi ! k = None" using whi by (auto simp: mk)
  have nlo: "rlo ! Suc k = GateRef g"
  proof -
    have "rlo ! Suc k = tl rlo ! k" by (simp add: rlo_def)
    also have "\<dots> = take (Suc k) (tl rlo) ! k" by simp
    also have "\<dots> = cell_of (Q1 ! lo ! k)" unfolding tlo using wlo mk by simp
    finally show ?thesis by (simp add: glo)
  qed
  have nhi: "lo \<noteq> hi \<longrightarrow> rhi ! Suc k = NoneCell"
  proof
    assume d: "lo \<noteq> hi"
    have "rhi ! Suc k = tl rhi ! k" by (simp add: rhi_def)
    also have "\<dots> = take (Suc k) (tl rhi) ! k" by simp
    also have "\<dots> = cell_of (Q1 ! hi ! k)" unfolding thi using whi mk by simp
    finally show "rhi ! Suc k = NoneCell" using ghi d by simp
  qed
  show ?thesis
  proof (intro exI conjI)
    show "py_min (positions g) = Inr lo" by (rule pmin)
    show "py_max (positions g) = Inr hi" by (rule pmax)
    show "schedule_gates (replicate (num c) [], []) (gs1 @ [g]) = Inr (Q1, u1)" by (rule s01)
    show "length (Q1 ! lo) = Suc k" using wlo mk by simp
    show "length (Q1 ! hi) = Suc k" using whi mk by simp
    show "Q1 ! lo ! k = Some g" by (rule glo)
    show "lo \<noteq> hi \<longrightarrow> Q1 ! hi ! k = None" by (rule ghi)
    show "rlo \<in> set lay" using wlo by (simp add: rlo_def)
    show "rhi \<in> set lay" using whi by (simp add: rhi_def)
    show "rlo ! 0 = QubitIndex lo" by (simp add: rlo_def)
    show "rhi ! 0 = QubitIndex hi" by (simp add: rhi_def)
    show "take (Suc k) (tl rlo) = map cell_of (Q1 ! lo)" by (rule tlo)
    show "take (Suc k) (tl rhi) = map cell_of (Q1 ! hi)" by (rule thi)
    show "rlo ! Suc k = GateRef g" by (rule nlo)
    show "lo \<noteq> hi \<longrightarrow> rhi ! Suc k = NoneCell" by (rule nhi)
  qed
qed

theorem layering_left_justified_witness:
  "layered_circuit example_circuit = Inr (example_layout, example_result)
   \<and> gates example_circuit = [HGate 2, HGate 2] @ CXGate [3, 1] # [Barrier [0, 2]]
   \<and> is_TwoQubitGate (CXGate [3, 1])
   \<and> (\<exists>lo hi Q1 u1 k rlo rhi.
           py_min (positions (CXGate [3, 1])) = Inr lo \<and> py_max (positions (CXGate [3, 1])) = Inr hi
         \<and> schedule_gates (replicate (num example_circuit) [], []) ([HGate 2, HGate 2] @ [CXGate [3, 1]]) = Inr (Q1, u1)
         \<and> length (Q1 ! lo) = Suc k \<and> length (Q1 ! hi) = Suc k
         \<and> Q1 ! lo ! k = Some (CXGate [3, 1]) \<and> (lo \<noteq> hi \<longrightarrow> Q1 ! hi ! k = None)
         \<and> rlo \<in> set example_layout \<and> rhi \<in> set example_layout
         \<and> rlo ! 0 = QubitIndex lo \<and> rhi ! 0 = QubitIndex hi
         \<and> take (Suc k) (tl rlo) = map cell_of (Q1 ! lo)
         \<and> take (Suc k) (tl rhi) = map cell_of (Q1 ! hi)
         \<and> rlo ! Suc k = GateRef (CXGate [3, 1]) \<and> (lo \<noteq> hi \<longrightarrow> rhi ! Suc k = NoneCell))"
proof -
  have g: "gates example_circuit = [HGate 2, HGate 2] @ CXGate [3, 1] # [Barrier [0, 2]]"
    by (simp add: example_circuit_def qc_barrier_def qc_cnot_def qc_h_def QuantumCircuit_init_def)
  have t: "is_TwoQubitGate (CXGate [3, 1])" by (simp add: CXGate_def)
  from layering_left_justified [OF example_layered g t] example_layered g t
  show ?thesis by blast
qed

text \<open>
  C6, as the code has it.  No builder looks at the register size or compares positions:
  each of \<^verbatim>\<open>h\<close>, \<^verbatim>\<open>x\<close>, \<^verbatim>\<open>y\<close>, \<^verbatim>\<open>z\<close>, \<^verbatim>\<open>cnot\<close>, \<^verbatim>\<open>cy\<close>, \<^verbatim>\<open>cz\<close>,
  \<^verbatim>\<open>swap\<close> and \<^verbatim>\<open>barrier\<close> appends exactly one gate that carries the positions as
  they were given, and changes nothing else of the circuit.
\<close>

theorem builders_append_unchecked:
  "qc_h c p = c\<lparr>gates := gates c @ [HGate p]\<rparr>
   \<and> qc_x c p = c\<lparr>gates := gates c @ [XGate p]\<rparr>
   \<and> qc_y c p = c\<lparr>gates := gates c @ [YGate p]\<rparr>
   \<and> qc_z c p = c\<lparr>gates := gates c @ [ZGate p]\<rparr>
   \<and> qc_cnot c p q = c\<lparr>gates := gates c @ [CXGate [p, q]]\<rparr>
   \<and> qc_cy c p q = c\<lparr>gates := gates c @ [CYGate [p, q]]\<rparr>
   \<and> qc_cz c p q = c\<lparr>gates := gates c @ [CZGate [p, q]]\<rparr>
   \<and> qc_swap c p q = c\<lparr>gates := gates c @ [SwapGate [p, q]]\<rparr>
   \<and> qc_barrier c ps = c\<lparr>gates := gates c @ [Barrier ps]\<rparr>"
  by (simp add: qc_h_def qc_x_def qc_y_def qc_z_def qc_cnot_def qc_cy_def qc_cz_def
      qc_swap_def qc_barrier_def)

text \<open>
  The claim C6 as stated fails: on a register of two qubits, \<^verbatim>\<open>h(5)\<close> and
  \<^verbatim>\<open>cnot(0, 0)\<close> both return with the gate appended.
\<close>

theorem builder_position_check_counterexample:
  "\<not> (5 < num (QuantumCircuit_init 2))
   \<and> gates (qc_h (QuantumCircuit_init 2) 5) = [HGate 5]
   \<and> \<not> distinct [0, 0 :: nat]
   \<and> gates (qc_cnot (QuantumCircuit_init 2) 0 0) = [CXGate [0, 0]]"
  by (simp add: qc_h_def qc_cnot_def QuantumCircuit_init_def)

section \<open>The end-to-end example\<close>

lemmas string_defs =
  str_nat.simps digit_char_def is_digit_def digit_val_def int_of_digits_def lower_def lower_char_def
  is_linebreak_def splitlines_def split_space1_def split_on_def strip_def findall_digits_def
  py_nth_def bind_err_def NL_def measure_to_qasm_def qasm_header_def

lemmas builder_defs =
  qc_h_def qc_x_def qc_y_def qc_z_def qc_rx_def qc_ry_def qc_rz_def
  qc_cnot_def qc_cy_def qc_cz_def qc_swap_def qc_barrier_def

lemma bell_circuit_fields:
  "gates bell_circuit = [HGate 0, CXGate [0, 1]]"
  "measures bell_circuit = [(0, 0), (1, 1)]"
  "num bell_circuit = 2"
  by (simp_all add: bell_circuit_def qc_measure_def builder_defs QuantumCircuit_init_def
      dict_of_def Let_def upt_rec)

lemma bell_export:
  "to_openqasm str_float bell_circuit = Inr (bell_qasm, bell_circuit\<lparr>openqasm := bell_qasm\<rparr>)"
  by (simp add: to_openqasm_def bell_circuit_fields gate_class_defs string_defs Let_def
      bell_qasm_def bell_statements_def)

lemma bell_lines: "splitlines bell_qasm = bell_statements"
  by (simp add: bell_qasm_def bell_statements_def string_defs)

lemma bell_layered:
  "layered_circuit bell_circuit
     = Inr (bell_layout, bell_circuit\<lparr>circuit := bell_layout, used_qubits := [0, 1]\<rparr>)"
  by code_simp

text \<open>
  C5, as the code has it.  The circuit \<^verbatim>\<open>H(0)\<close>, \<^verbatim>\<open>CX(0,1)\<close>,
  \<^verbatim>\<open>measure([0,1], cbits=[0,1])\<close> on two qubits exports to the two header lines, the
  two register declarations and then exactly the statements \<^verbatim>\<open>h q[0];\<close>,
  \<^verbatim>\<open>cx q[0],q[1];\<close>, \<^verbatim>\<open>measure q[0] -> meas[0];\<close>, \<^verbatim>\<open>measure q[1] -> meas[1];\<close>
  in that order.  Its layered layout has two rows and, after the index column, two layer
  columns: row 0 is \<open>[H, CX]\<close> and row 1 is \<open>[None, None]\<close>, for the gate is recorded on
  the wire of its least qubit only.
\<close>

theorem bell_end_to_end:
  "to_openqasm str_float bell_circuit = Inr (bell_qasm, bell_circuit\<lparr>openqasm := bell_qasm\<rparr>)
   \<and> splitlines bell_qasm = bell_statements
   \<and> drop 4 bell_statements
       = [''h q[0];'', ''cx q[0],q[1];'', ''measure q[0] -> meas[0];'', ''measure q[1] -> meas[1];'']
   \<and> layered_circuit bell_circuit
       = Inr (bell_layout, bell_circuit\<lparr>circuit := bell_layout, used_qubits := [0, 1]\<rparr>)
   \<and> bell_layout = [[QubitIndex 0, GateRef (HGate 0), GateRef (CXGate [0, 1])],
                     [QubitIndex 1, NoneCell, NoneCell]]"
  using bell_export [of str_float] bell_lines bell_layered
  by (simp add: bell_statements_def bell_layout_def)

text \<open>
  The claim C5 as stated fails in its last part: row 1 of the layout is not
  \<open>[None, CX]\<close>.
\<close>

theorem bell_row1_counterexample:
  "layered_circuit bell_circuit
     = Inr (bell_layout, bell_circuit\<lparr>circuit := bell_layout, used_qubits := [0, 1]\<rparr>)
   \<and> tl (bell_layout ! 1) \<noteq> [NoneCell, GateRef (CXGate [0, 1])]"
  using bell_layered by (simp add: bell_layout_def)

section \<open>Import: statements after a measurement\<close>

lemma bind_err_simps [simp]:
  "bind_err (Inl e) f = Inl e"
  "bind_err (Inr v) f = f v"
  by (simp_all add: bind_err_def)

lemma bind_err_Inr_iff:
  "bind_err r f = Inr y \<longleftrightarrow> (\<exists>v. r = Inr v \<and> f v = Inr y)"
  by (cases r) simp_all

lemma import_gate_invalid:
  "import_gate eval_para (st\<lparr>global_valid := False\<rparr>) ops qbs
     = bind_err (import_gate eval_para st ops qbs) (\<lambda>s. Inr (s\<lparr>global_valid := False\<rparr>))"
proof -
  define inds where "inds = map int_of_digits (findall_digits qbs)"
  define X where "X = (if length (split_on (CHR ''('') ops) > 1
                        then bind_err (eval_all eval_para (split_on (CHR '','') (strip ''()'' (split_on (CHR ''('') ops ! 1))))
                               (\<lambda>vs. Inr (Some vs))
                        else Inr (paras st))"
  show ?thesis
  proof (cases "\<forall>pos\<in>set inds. pos \<notin> set (measured_qubits st)")
    case False
    then show ?thesis by (simp add: import_gate_def Let_def inds_def)
  next
    case valid: True
    show ?thesis
    proof (cases "ops = ''barrier''")
      case True
      then show ?thesis using valid by (simp add: import_gate_def Let_def inds_def)
    next
      case False
      have l: "import_gate eval_para (st\<lparr>global_valid := False\<rparr>) ops qbs
               = bind_err X (\<lambda>ps. bind_err (apply_gate (hd (split_on (CHR ''('') ops)) inds ps (circ st))
                   (\<lambda>c. Inr (st\<lparr>global_valid := False, circ := c, paras := ps\<rparr>)))"
        using valid False by (simp add: import_gate_def Let_def inds_def X_def)
      have r: "import_gate eval_para st ops qbs
               = bind_err X (\<lambda>ps. bind_err (apply_gate (hd (split_on (CHR ''('') ops)) inds ps (circ st))
                   (\<lambda>c. Inr (st\<lparr>circ := c, paras := ps\<rparr>)))"
        using valid False by (simp add: import_gate_def Let_def inds_def X_def)
      show ?thesis
        unfolding l r
        by (cases X) (simp_all add: bind_err_def split: sum.splits)
    qed
  qed
qed

lemma import_line_invalid:
  "import_line eval_para (st\<lparr>global_valid := False\<rparr>) line
     = bind_err (import_line eval_para st line) (\<lambda>s. Inr (s\<lparr>global_valid := False\<rparr>))"
proof (cases "line = []")
  case True
  then show ?thesis by (simp add: import_line_def)
next
  case ne: False
  define oq where "oq = split_space1 line"
  consider (qreg) "hd oq = ''qreg''" | (creg) "hd oq \<noteq> ''qreg''" "hd oq = ''creg''"
    | (measure) "hd oq \<noteq> ''qreg''" "hd oq \<noteq> ''creg''" "hd oq = ''measure''"
    | (gate) "hd oq \<noteq> ''qreg''" "hd oq \<noteq> ''creg''" "hd oq \<noteq> ''measure''"
    by blast
  then show ?thesis
  proof cases
    case qreg
    then show ?thesis using ne
      by (cases "py_nth oq 1")
        (simp_all add: import_line_def Let_def oq_def [symmetric] bind_err_def split: sum.splits)
  next
    case creg
    then show ?thesis using ne by (simp add: import_line_def Let_def oq_def [symmetric])
  next
    case measure
    then show ?thesis using ne
      by (cases "py_nth oq 1")
        (simp_all add: import_line_def Let_def oq_def [symmetric] bind_err_def split: sum.splits)
  next
    case gate
    then show ?thesis using ne
      by (cases "py_nth oq 1")
        (simp_all add: import_line_def Let_def oq_def [symmetric] import_gate_invalid)
  qed
qed

lemma import_lines_invalid:
  "import_lines eval_para (st\<lparr>global_valid := False\<rparr>) ls
     = bind_err (import_lines eval_para st ls) (\<lambda>s. Inr (s\<lparr>global_valid := False\<rparr>))"
proof (induction ls arbitrary: st)
  case Nil
  then show ?case by simp
next
  case (Cons l ls)
  show ?case
    by (cases "import_line eval_para st l") (simp_all add: import_line_invalid Cons.IH)
qed

lemma import_lines_append:
  "import_lines eval_para st (xs @ ys)
     = bind_err (import_lines eval_para st xs) (\<lambda>st'. import_lines eval_para st' ys)"
proof (induction xs arbitrary: st)
  case Nil
  then show ?case by simp
next
  case (Cons l xs)
  show ?case by (cases "import_line eval_para st l") (simp_all add: Cons.IH)
qed

lemma import_gate_measured:
  "import_gate eval_para st ops qbs = Inr st' \<Longrightarrow> measured_qubits st' = measured_qubits st"
  by (auto simp: import_gate_def Let_def bind_err_Inr_iff split: if_splits)

lemma import_line_measured:
  assumes "import_line eval_para st line = Inr st'"
  shows "set (measured_qubits st) \<subseteq> set (measured_qubits st')"
proof (cases "line = []")
  case True
  with assms show ?thesis by (simp add: import_line_def)
next
  case ne: False
  define oq where "oq = split_space1 line"
  consider (qreg) "hd oq = ''qreg''" | (creg) "hd oq \<noteq> ''qreg''" "hd oq = ''creg''"
    | (measure) "hd oq \<noteq> ''qreg''" "hd oq \<noteq> ''creg''" "hd oq = ''measure''"
    | (gate) "hd oq \<noteq> ''qreg''" "hd oq \<noteq> ''creg''" "hd oq \<noteq> ''measure''"
    by blast
  then show ?thesis
  proof cases
    case qreg
    with assms ne show ?thesis
      by (auto simp: import_line_def Let_def oq_def [symmetric] bind_err_Inr_iff)
  next
    case creg
    with assms ne show ?thesis by (simp add: import_line_def Let_def oq_def [symmetric])
  next
    case measure
    with assms ne show ?thesis
      by (auto simp: import_line_def Let_def oq_def [symmetric] bind_err_Inr_iff)
  next
    case gate
    with assms ne obtain qbs where "import_gate eval_para st (hd oq) qbs = Inr st'"
      by (auto simp: import_line_def Let_def oq_def [symmetric] bind_err_Inr_iff)
    from import_gate_measured [OF this] show ?thesis by simp
  qed
qed

lemma import_lines_measured:
  "import_lines eval_para st ls = Inr st' \<Longrightarrow> set (measured_qubits st) \<subseteq> set (measured_qubits st')"
proof (induction ls arbitrary: st)
  case Nil
  then show ?case by simp
next
  case (Cons l ls)
  from Cons.prems obtain s where a: "import_line eval_para st l = Inr s"
    and b: "import_lines eval_para s ls = Inr st'"
    by (auto simp: bind_err_Inr_iff)
  from import_line_measured [OF a] Cons.IH [OF b] show ?case by blast
qed

lemma split_space1_nonempty: "split_space1 line = [a, b] \<Longrightarrow> line \<noteq> [] \<and> hd (split_space1 line) = a"
  by (auto simp: split_space1_def)

lemma import_line_measure:
  assumes "split_space1 m = [''measure'', mq]"
    and "py_nth (map int_of_digits (findall_digits mq)) 0 = Inr q"
    and "import_line eval_para st m = Inr st'"
  shows "q \<in> set (measured_qubits st')"
proof -
  from split_space1_nonempty [OF assms(1)] have ne: "m \<noteq> []" by simp
  from assms(3) show ?thesis
    using ne assms(2)
    by (auto simp: import_line_def Let_def assms(1) bind_err_Inr_iff py_nth_def split: if_splits)
qed

lemma import_line_skip:
  assumes "split_space1 line = [operations, qbs]"
    and "operations \<notin> {''qreg'', ''creg'', ''measure''}"
    and "q \<in> set (map int_of_digits (findall_digits qbs))"
    and "q \<in> set (measured_qubits st)"
  shows "import_line eval_para st line = Inr (st\<lparr>global_valid := False\<rparr>)"
proof -
  from split_space1_nonempty [OF assms(1)] have ne: "line \<noteq> []" by simp
  have g: "import_gate eval_para st operations qbs = Inr (st\<lparr>global_valid := False\<rparr>)"
    using assms(3,4) by (auto simp: import_gate_def Let_def)
  show ?thesis
    using ne assms(2) g by (simp add: import_line_def Let_def assms(1) py_nth_def)
qed

lemma import_finish_invalid: "import_finish (st\<lparr>global_valid := False\<rparr>) = (fst (import_finish st), True)"
  by (simp add: import_finish_def Let_def)

text \<open>
  C4.  Let the lines after the two header lines contain a statement \<^verbatim>\<open>measure q -> c\<close>
  and, later, a statement that is neither \<^verbatim>\<open>qreg\<close>, \<^verbatim>\<open>creg\<close> nor
  \<^verbatim>\<open>measure\<close> and has \<open>q\<close> among its integer operands.  Then that statement, read in
  any state in which \<open>q\<close> counts as measured, raises nothing and changes nothing but the
  flag \<^verbatim>\<open>global_valid\<close>, which it clears; and the whole import behaves as the import
  of the other lines does (the same exception, or the same circuit), except that the
  warning about operations after measurement is given.
\<close>

theorem post_measurement_gate_dropped:
  assumes "drop 2 (splitlines text) = ls1 @ m # ls2 @ line # ls3"
    and "split_space1 m = [''measure'', mq]"
    and "py_nth (map int_of_digits (findall_digits mq)) 0 = Inr q"
    and "split_space1 line = [operations, qbs]"
    and "operations \<notin> {''qreg'', ''creg'', ''measure''}"
    and "q \<in> set (map int_of_digits (findall_digits qbs))"
  shows "(\<forall>st. q \<in> set (measured_qubits st) \<longrightarrow>
            import_line eval_para st line = Inr (st\<lparr>global_valid := False\<rparr>))
       \<and> from_openqasm eval_para c text
           = bind_err (import_lines eval_para (import_init c text) (ls1 @ m # ls2 @ ls3))
               (\<lambda>st. Inr (fst (import_finish st), True))"
proof
  show "\<forall>st. q \<in> set (measured_qubits st) \<longrightarrow>
            import_line eval_para st line = Inr (st\<lparr>global_valid := False\<rparr>)"
    using import_line_skip [OF assms(4,5,6)] by blast
next
  let ?st0 = "import_init c text"
  let ?fin = "\<lambda>st. Inr (fst (import_finish st), True) :: error + QuantumCircuit \<times> bool"
  have l: "from_openqasm eval_para c text
             = bind_err (import_lines eval_para ?st0 ((ls1 @ [m]) @ ls2 @ line # ls3))
                 (\<lambda>st. Inr (import_finish st))"
    by (simp add: from_openqasm_def Let_def assms(1))
  show "from_openqasm eval_para c text
          = bind_err (import_lines eval_para ?st0 (ls1 @ m # ls2 @ ls3)) ?fin"
  proof (cases "import_lines eval_para ?st0 ls1")
    case (Inl e)
    then show ?thesis unfolding l by (simp add: import_lines_append)
  next
    case s1: (Inr s1)
    show ?thesis
    proof (cases "import_line eval_para s1 m")
      case (Inl e)
      then show ?thesis unfolding l using s1 by (simp add: import_lines_append)
    next
      case sm: (Inr sm)
      from import_line_measure [OF assms(2,3) sm] have qm: "q \<in> set (measured_qubits sm)" .
      show ?thesis
      proof (cases "import_lines eval_para sm ls2")
        case (Inl e)
        then show ?thesis unfolding l using s1 sm by (simp add: import_lines_append)
      next
        case s2: (Inr s2)
        from import_lines_measured [OF s2] qm have "q \<in> set (measured_qubits s2)" by blast
        from import_line_skip [OF assms(4,5,6) this]
        have sk: "import_line eval_para s2 line = Inr (s2\<lparr>global_valid := False\<rparr>)" .
        show ?thesis
          unfolding l using s1 sm s2 sk
          by (cases "import_lines eval_para s2 ls3")
            (simp_all add: import_lines_append import_lines_invalid import_finish_invalid)
      qed
    qed
  qed
qed

lemma post_measure_split:
  "drop 2 (splitlines post_measure_qasm)
     = [''qreg q[2];'', ''creg meas[2];'', ''h q[0];''] @ ''measure q[0] -> meas[0];'' # []
       @ ''cx q[1],q[0];'' # [''x q[1];'']"
  by (simp add: post_measure_qasm_def post_measure_lines_def string_defs)

theorem post_measurement_gate_dropped_witness:
  "drop 2 (splitlines post_measure_qasm)
     = [''qreg q[2];'', ''creg meas[2];'', ''h q[0];''] @ ''measure q[0] -> meas[0];'' # []
       @ ''cx q[1],q[0];'' # [''x q[1];'']
   \<and> split_space1 ''measure q[0] -> meas[0];'' = [''measure'', ''q[0] -> meas[0];'']
   \<and> py_nth (map int_of_digits (findall_digits ''q[0] -> meas[0];'')) 0 = Inr 0
   \<and> split_space1 ''cx q[1],q[0];'' = [''cx'', ''q[1],q[0];'']
   \<and> ''cx'' \<notin> {''qreg'', ''creg'', ''measure''}
   \<and> 0 \<in> set (map int_of_digits (findall_digits ''q[1],q[0];''))
   \<and> map_sum id (\<lambda>r. (gates (fst r), snd r)) (from_openqasm demo_eval_para (QuantumCircuit_init 0) post_measure_qasm)
       = Inr ([HGate 0, XGate 1], True)"
proof -
  have a: "split_space1 ''measure q[0] -> meas[0];'' = [''measure'', ''q[0] -> meas[0];'']"
    by (simp add: string_defs)
  have b: "py_nth (map int_of_digits (findall_digits ''q[0] -> meas[0];'')) 0 = Inr 0"
    by (simp add: string_defs)
  have d: "split_space1 ''cx q[1],q[0];'' = [''cx'', ''q[1],q[0];'']"
    by (simp add: string_defs)
  have e: "''cx'' \<notin> {''qreg'', ''creg'', ''measure''}" by simp
  have f: "0 \<in> set (map int_of_digits (findall_digits ''q[1],q[0];''))"
    by (simp add: string_defs)
  have r: "import_lines demo_eval_para (import_init (QuantumCircuit_init 0) post_measure_qasm)
            ([''qreg q[2];'', ''creg meas[2];'', ''h q[0];''] @ ''measure q[0] -> meas[0];'' # [] @ [''x q[1];''])
           = Inr \<lparr> circ = (QuantumCircuit_init 0)\<lparr>num := 2, openqasm := post_measure_qasm,
                       gates := [HGate 0, XGate 1], measures := [(0, 0)]\<rparr>,
                    measured_qubits = [0], global_valid = True, paras = None \<rparr>"
    by (simp add: import_init_def import_line_def import_gate_def apply_gate_def string_defs
        Let_def builder_defs QuantumCircuit_init_def)
  note t = post_measurement_gate_dropped [OF post_measure_split a b d e f,
      of demo_eval_para "QuantumCircuit_init 0"]
  have "from_openqasm demo_eval_para (QuantumCircuit_init 0) post_measure_qasm
          = Inr ((QuantumCircuit_init 0)\<lparr>num := 2, openqasm := post_measure_qasm,
                       gates := [HGate 0, XGate 1], measures := [(0, 0)]\<rparr>, True)"
    by (simp only: t [THEN conjunct2] r) (simp add: import_finish_def Let_def)
  then have "map_sum id (\<lambda>r. (gates (fst r), snd r))
               (from_openqasm demo_eval_para (QuantumCircuit_init 0) post_measure_qasm)
             = Inr ([HGate 0, XGate 1], True)"
    by simp
  with post_measure_split a b d e f show ?thesis by blast
qed

section \<open>Export followed by import\<close>

lemma digit_cases:
  assumes "d < 10"
  obtains "d = 0" | "d = 1" | "d = 2" | "d = 3" | "d = 4" | "d = 5" | "d = 6" | "d = 7" | "d = 8"
    | "d = (9::nat)"
proof -
  from assms have "d = 0 \<or> d = 1 \<or> d = 2 \<or> d = 3 \<or> d = 4 \<or> d = 5 \<or> d = 6 \<or> d = 7
      \<or> d = 8 \<or> d = 9"
    by arith
  with that show thesis by blast
qed

lemma digit_char_props:
  assumes "d < 10"
  shows "is_digit (digit_char d)" and "digit_val (digit_char d) = d"
  using assms by (elim digit_cases; simp add: is_digit_def digit_char_def digit_val_def)+

lemma str_nat_digits: "\<forall>ch\<in>set (str_nat n). is_digit ch"
proof (induction n rule: str_nat.induct)
  case (1 n)
  show ?case
  proof (cases "n < 10")
    case True
    then show ?thesis by (subst str_nat.simps) (simp add: digit_char_props)
  next
    case False
    have "n mod 10 < 10" by simp
    then have "is_digit (digit_char (n mod 10))" by (rule digit_char_props)
    with False 1 show ?thesis by (subst str_nat.simps) auto
  qed
qed

lemma str_nat_nonempty: "str_nat n \<noteq> []"
  by (subst str_nat.simps) simp

lemma int_of_digits_snoc: "int_of_digits (s @ [ch]) = 10 * int_of_digits s + digit_val ch"
  by (simp add: int_of_digits_def)

lemma int_of_digits_str_nat: "int_of_digits (str_nat n) = n"
proof (induction n rule: str_nat.induct)
  case (1 n)
  show ?case
  proof (cases "n < 10")
    case True
    then show ?thesis by (subst str_nat.simps) (simp add: int_of_digits_def digit_char_props)
  next
    case False
    have m: "digit_val (digit_char (n mod 10)) = n mod 10"
      by (rule digit_char_props) simp
    have "int_of_digits (str_nat n) = 10 * int_of_digits (str_nat (n div 10)) + n mod 10"
      using False by (subst str_nat.simps) (simp add: int_of_digits_snoc m)
    with False 1 show ?thesis by simp
  qed
qed

lemma is_digit_not:
  "\<not> is_digit (CHR ''q'')" "\<not> is_digit (CHR ''['')" "\<not> is_digit (CHR '']'')"
  "\<not> is_digit (CHR '';'')" "\<not> is_digit (CHR '','')" "\<not> is_digit (CHR '' '')"
  by (simp_all add: is_digit_def)

lemma is_digit_plain:
  "is_digit ch \<Longrightarrow> \<not> is_linebreak ch \<and> ch \<noteq> CHR '' '' \<and> ch \<noteq> CHR ''('' \<and> ch \<noteq> CHR '')'' \<and> ch \<noteq> CHR '',''"
  by (auto simp: is_digit_def is_linebreak_def)

lemma digit_runs_digits:
  "\<forall>ch\<in>set ds. is_digit ch \<Longrightarrow> digit_runs cur (ds @ rest) = digit_runs (cur @ ds) rest"
  by (induction ds arbitrary: cur) simp_all

lemma digit_runs_operand:
  "digit_runs [] (''q['' @ str_nat p @ '']'' @ rest) = str_nat p # digit_runs [] rest"
proof -
  have "digit_runs [] (''q['' @ str_nat p @ '']'' @ rest) = digit_runs [] (str_nat p @ '']'' @ rest)"
    by (simp add: is_digit_not)
  also have "\<dots> = digit_runs (str_nat p) ('']'' @ rest)"
    using digit_runs_digits [OF str_nat_digits, of "[]" p] by simp
  also have "\<dots> = str_nat p # digit_runs [] rest"
    by (simp add: is_digit_not str_nat_nonempty)
  finally show ?thesis .
qed

lemma findall_one: "findall_digits (''q['' @ str_nat p @ ''];'') = [str_nat p]"
  using digit_runs_operand [of p "'';''"] by (simp add: findall_digits_def is_digit_not)

lemma findall_two:
  "findall_digits (''q['' @ str_nat p @ ''],q['' @ str_nat q @ ''];'') = [str_nat p, str_nat q]"
proof -
  have "digit_runs [] (''q['' @ str_nat p @ '']'' @ ('','' @ ''q['' @ str_nat q @ '']'' @ '';''))
          = str_nat p # digit_runs [] ('','' @ ''q['' @ str_nat q @ '']'' @ '';'')"
    by (rule digit_runs_operand)
  also have "digit_runs [] ('','' @ ''q['' @ str_nat q @ '']'' @ '';'')
          = digit_runs [] (''q['' @ str_nat q @ '']'' @ '';'')"
    by (simp add: is_digit_not)
  also have "\<dots> = str_nat q # digit_runs [] '';''"
    by (rule digit_runs_operand)
  finally show ?thesis by (simp add: findall_digits_def is_digit_not)
qed

lemma findall_operands:
  "digit_runs [] (join '','' (map (\<lambda>p. ''q['' @ str_nat p @ '']'') ps) @ '';'') = map str_nat ps"
proof (induction ps rule: induct_list012)
  case 1
  then show ?case by (simp add: is_digit_not)
next
  case (2 p)
  show ?case using digit_runs_operand [of p "'';''"] by (simp add: is_digit_not)
next
  case (3 p q ps)
  have "digit_runs [] (join '','' (map (\<lambda>p. ''q['' @ str_nat p @ '']'') (p # q # ps)) @ '';'')
          = digit_runs [] (''q['' @ str_nat p @ '']'' @ ('','' @ join '','' (map (\<lambda>p. ''q['' @ str_nat p @ '']'') (q # ps)) @ '';''))"
    by simp
  also have "\<dots> = str_nat p # digit_runs [] ('','' @ join '','' (map (\<lambda>p. ''q['' @ str_nat p @ '']'') (q # ps)) @ '';'')"
    by (rule digit_runs_operand)
  also have "digit_runs [] ('','' @ join '','' (map (\<lambda>p. ''q['' @ str_nat p @ '']'') (q # ps)) @ '';'')
          = digit_runs [] (join '','' (map (\<lambda>p. ''q['' @ str_nat p @ '']'') (q # ps)) @ '';'')"
    by (simp add: is_digit_not)
  finally show ?case using 3 by simp
qed

lemma findall_measure:
  "findall_digits (''q['' @ str_nat k @ ''] -> meas['' @ str_nat v @ ''];'') = [str_nat k, str_nat v]"
proof -
  have nd: "\<not> is_digit (CHR ''-'')" "\<not> is_digit (CHR ''>'')" "\<not> is_digit (CHR ''m'')"
    "\<not> is_digit (CHR ''e'')" "\<not> is_digit (CHR ''a'')" "\<not> is_digit (CHR ''s'')"
    by (simp_all add: is_digit_def)
  have "digit_runs [] (''q['' @ str_nat k @ '']'' @ ('' -> meas['' @ str_nat v @ ''];''))
          = str_nat k # digit_runs [] ('' -> meas['' @ str_nat v @ ''];'')"
    by (rule digit_runs_operand)
  also have "digit_runs [] ('' -> meas['' @ str_nat v @ ''];'') = digit_runs [] (str_nat v @ ''];'')"
    by (simp add: is_digit_not nd)
  also have "\<dots> = digit_runs (str_nat v) ''];''"
    using digit_runs_digits [OF str_nat_digits, of "[]" v] by simp
  also have "\<dots> = [str_nat v]" by (simp add: is_digit_not str_nat_nonempty)
  finally show ?thesis by (simp add: findall_digits_def)
qed

lemma split_space1_at:
  "CHR '' '' \<notin> set a \<Longrightarrow> split_space1 (a @ CHR '' '' # b) = [a, b]"
  by (simp add: split_space1_def dropWhile_append3 takeWhile_append2 dropWhile_append)

lemma split_from_none:
  "sep \<notin> set s \<Longrightarrow> split_from sep cur (s @ rest) = split_from sep (cur @ s) rest"
  by (induction s arbitrary: cur) auto

lemma split_on_none: "sep \<notin> set s \<Longrightarrow> split_on sep s = [s]"
  using split_from_none [of sep s "[]" "[]"] by (simp add: split_on_def)

lemma split_on_paren:
  assumes "CHR ''('' \<notin> set a" and "CHR ''('' \<notin> set b"
  shows "split_on (CHR ''('') (a @ ''('' @ b) = [a, b]"
proof -
  have "split_from (CHR ''('') [] (a @ ''('' @ b) = split_from (CHR ''('') a (CHR ''('' # b)"
    using split_from_none [OF assms(1), of "[]"] by simp
  also have "\<dots> = a # split_from (CHR ''('') [] (b @ [])" by simp
  also have "split_from (CHR ''('') [] (b @ []) = [b]"
    using split_from_none [OF assms(2), of "[]" "[]"] by simp
  finally show ?thesis by (simp add: split_on_def)
qed

lemma strip_parens:
  assumes "\<forall>ch\<in>set s. ch \<notin> set ''()''"
  shows "strip ''()'' (s @ '')'') = s"
proof -
  have d1: "dropWhile (\<lambda>ch. ch \<in> set ''()'') (s @ '')'') = (if s = [] then [] else s @ '')'')"
    using assms by (cases s) auto
  have d2: "dropWhile (\<lambda>ch. ch \<in> set ''()'') (rev s) = rev s"
    using assms by (cases "rev s") (auto simp: rev_eq_Cons_iff)
  show ?thesis
  proof (cases "s = []")
    case True
    then show ?thesis by (simp add: strip_def)
  next
    case False
    then show ?thesis unfolding strip_def d1 using d2 by simp
  qed
qed

lemma splitlines_from_line:
  assumes "\<forall>ch\<in>set l. \<not> is_linebreak ch"
  shows "splitlines_from cur (l @ NL @ rest) = (cur @ l) # splitlines_from [] rest"
  using assms
proof (induction l arbitrary: cur)
  case Nil
  show ?case by (cases rest) (simp_all add: NL_def is_linebreak_def)
next
  case (Cons a l)
  then have a: "\<not> is_linebreak a" and l: "\<forall>ch\<in>set l. \<not> is_linebreak ch" by simp_all
  from a have cr: "a \<noteq> CHR 0x0D" by (auto simp: is_linebreak_def)
  obtain d ds where e: "l @ NL @ rest = d # ds" by (cases "l @ NL @ rest") (simp_all add: NL_def)
  have "splitlines_from cur ((a # l) @ NL @ rest) = splitlines_from cur (a # d # ds)"
    by (simp add: e)
  also have "\<dots> = splitlines_from (cur @ [a]) (d # ds)" using a cr by simp
  also have "\<dots> = splitlines_from (cur @ [a]) (l @ NL @ rest)" by (simp only: e)
  also have "\<dots> = ((cur @ [a]) @ l) # splitlines_from [] rest" by (rule Cons.IH [OF l])
  finally show ?case by simp
qed

lemma splitlines_concat:
  "\<forall>l\<in>set ls. \<forall>ch\<in>set l. \<not> is_linebreak ch \<Longrightarrow> splitlines (concat (map (\<lambda>l. l @ NL) ls)) = ls"
proof (induction ls)
  case Nil
  then show ?case by (simp add: splitlines_def)
next
  case (Cons l ls)
  then have l: "\<forall>ch\<in>set l. \<not> is_linebreak ch" and r: "splitlines (concat (map (\<lambda>l. l @ NL) ls)) = ls"
    by simp_all
  have "splitlines (concat (map (\<lambda>l. l @ NL) (l # ls)))
          = splitlines_from [] (l @ NL @ concat (map (\<lambda>l. l @ NL) ls))"
    by (simp add: splitlines_def)
  also have "\<dots> = l # splitlines_from [] (concat (map (\<lambda>l. l @ NL) ls))"
    using splitlines_from_line [OF l, of "[]"] by simp
  finally show ?case using r by (simp add: splitlines_def)
qed

lemma import_line_statement:
  assumes "CHR '' '' \<notin> set ops" and "ops \<notin> {''qreg'', ''creg'', ''measure''}"
  shows "import_line eval_para st (ops @ CHR '' '' # qbs) = import_gate eval_para st ops qbs"
  using assms by (simp add: import_line_def split_space1_at py_nth_def Let_def)

lemma import_fixed_single:
  assumes "measured_qubits st = []" and "ops \<in> {''h'', ''x'', ''y'', ''z''}"
  shows "import_line eval_para st (ops @ CHR '' '' # ''q['' @ str_nat p @ ''];'')
           = Inr (st\<lparr>circ := (circ st)\<lparr>gates := gates (circ st) @
               [if ops = ''h'' then HGate p else if ops = ''x'' then XGate p
                else if ops = ''y'' then YGate p else ZGate p]\<rparr>, paras := paras st\<rparr>)"
proof -
  define qbs where "qbs = ''q['' @ str_nat p @ ''];''"
  have inds: "map int_of_digits (findall_digits qbs) = [p]"
    unfolding qbs_def by (simp only: findall_one) (simp add: int_of_digits_str_nat)
  have sp: "CHR '' '' \<notin> set ops" "ops \<notin> {''qreg'', ''creg'', ''measure''}"
    using assms(2) by auto
  have "import_gate eval_para st ops qbs
          = Inr (st\<lparr>circ := (circ st)\<lparr>gates := gates (circ st) @
               [if ops = ''h'' then HGate p else if ops = ''x'' then XGate p
                else if ops = ''y'' then YGate p else ZGate p]\<rparr>, paras := paras st\<rparr>)"
    using assms(2)
    by (elim insertE emptyE)
      (simp_all add: import_gate_def inds assms(1) Let_def split_on_def apply_gate_def py_nth_def
        builder_defs)
  then show ?thesis
    using import_line_statement [OF sp, of eval_para st qbs] by (simp add: qbs_def)
qed

lemma import_fixed_two:
  assumes "measured_qubits st = []" and "ops \<in> {''cx'', ''cy'', ''cz'', ''swap''}"
  shows "import_line eval_para st (ops @ CHR '' '' # ''q['' @ str_nat a @ ''],q['' @ str_nat b @ ''];'')
           = Inr (st\<lparr>circ := (circ st)\<lparr>gates := gates (circ st) @
               [if ops = ''cx'' then CXGate [a, b] else if ops = ''cy'' then CYGate [a, b]
                else if ops = ''cz'' then CZGate [a, b] else SwapGate [a, b]]\<rparr>, paras := paras st\<rparr>)"
proof -
  define qbs where "qbs = ''q['' @ str_nat a @ ''],q['' @ str_nat b @ ''];''"
  have inds: "map int_of_digits (findall_digits qbs) = [a, b]"
    unfolding qbs_def by (simp only: findall_two) (simp add: int_of_digits_str_nat)
  have sp: "CHR '' '' \<notin> set ops" "ops \<notin> {''qreg'', ''creg'', ''measure''}"
    using assms(2) by auto
  have "import_gate eval_para st ops qbs
          = Inr (st\<lparr>circ := (circ st)\<lparr>gates := gates (circ st) @
               [if ops = ''cx'' then CXGate [a, b] else if ops = ''cy'' then CYGate [a, b]
                else if ops = ''cz'' then CZGate [a, b] else SwapGate [a, b]]\<rparr>, paras := paras st\<rparr>)"
    using assms(2)
    by (elim insertE emptyE)
      (simp_all add: import_gate_def inds assms(1) Let_def split_on_def apply_gate_def py_nth_def
        builder_defs)
  then show ?thesis
    using import_line_statement [OF sp, of eval_para st qbs] by (simp add: qbs_def)
qed

lemma import_barrier:
  assumes "measured_qubits st = []"
  shows "import_line eval_para st (''barrier'' @ CHR '' '' # join '','' (map (\<lambda>p. ''q['' @ str_nat p @ '']'') ps) @ '';'')
           = Inr (st\<lparr>circ := (circ st)\<lparr>gates := gates (circ st) @ [Barrier ps]\<rparr>, paras := paras st\<rparr>)"
proof -
  define qbs where "qbs = join '','' (map (\<lambda>p. ''q['' @ str_nat p @ '']'') ps) @ '';''"
  have "map int_of_digits (findall_digits qbs) = map int_of_digits (map str_nat ps)"
    unfolding qbs_def findall_digits_def by (simp only: findall_operands)
  then have inds: "map int_of_digits (findall_digits qbs) = ps"
    by (simp add: int_of_digits_str_nat comp_def)
  have "import_gate eval_para st ''barrier'' qbs
          = Inr (st\<lparr>circ := (circ st)\<lparr>gates := gates (circ st) @ [Barrier ps]\<rparr>, paras := paras st\<rparr>)"
    by (simp add: import_gate_def inds assms Let_def qc_barrier_def)
  then show ?thesis
    using import_line_statement [of "''barrier''" eval_para st qbs] by (simp add: qbs_def)
qed

lemma import_rotation:
  assumes "measured_qubits st = []" and "name \<in> {''rx'', ''ry'', ''rz''}"
    and "float_text_ok str_float eval_para v" and "v \<noteq> Finite 0"
  shows "import_line eval_para st ((name @ ''('' @ float_text str_float v @ '')'') @ CHR '' '' # ''q['' @ str_nat p @ ''];'')
           = Inr (st\<lparr>circ := (circ st)\<lparr>gates := gates (circ st) @
               [if name = ''rx'' then RXGate p v else if name = ''ry'' then RYGate p v
                else RZGate p v]\<rparr>, paras := Some [v]\<rparr>)"
proof -
  define qbs where "qbs = ''q['' @ str_nat p @ ''];''"
  define s where "s = float_text str_float v"
  define ops where "ops = name @ ''('' @ s @ '')''"
  have ev: "py_eval eval_para s = Inr v" and plain: "\<forall>ch\<in>set s. ch \<notin> set '' (),''"
    using assms(3) by (simp_all add: float_text_ok_def s_def)
  have inds: "map int_of_digits (findall_digits qbs) = [p]"
    unfolding qbs_def by (simp only: findall_one) (simp add: int_of_digits_str_nat)
  have nsp: "CHR '' '' \<notin> set name" "CHR ''('' \<notin> set name" using assms(2) by auto
  have sp: "CHR '' '' \<notin> set ops" using nsp plain by (auto simp: ops_def)
  have kw: "ops \<notin> {''qreg'', ''creg'', ''measure''}" "ops \<noteq> ''barrier''"
    using assms(2) by (auto simp: ops_def)
  have "CHR ''('' \<notin> set (s @ '')'')" using plain by auto
  from split_on_paren [OF nsp(2) this]
  have so: "split_on (CHR ''('') ops = [name, s @ '')'']" by (simp add: ops_def)
  have st: "strip ''()'' (s @ '')'') = s" using plain by (intro strip_parens) auto
  have "CHR '','' \<notin> set s" using plain by auto
  then have sc: "split_on (CHR '','') s = [s]" by (rule split_on_none)
  have "import_gate eval_para st ops qbs
          = bind_err (apply_gate name [p] (Some [v]) (circ st))
              (\<lambda>c. Inr (st\<lparr>circ := c, paras := Some [v]\<rparr>))"
    using kw(2) by (simp add: import_gate_def inds assms(1) Let_def so st sc ev)
  also have "\<dots> = Inr (st\<lparr>circ := (circ st)\<lparr>gates := gates (circ st) @
               [if name = ''rx'' then RXGate p v else if name = ''ry'' then RYGate p v
                else RZGate p v]\<rparr>, paras := Some [v]\<rparr>)"
    using assms(2,4)
    by (elim insertE emptyE)
      (simp_all add: apply_gate_def py_nth_def get_para_def builder_defs)
  finally show ?thesis
    using import_line_statement [OF sp kw(1), of eval_para st qbs] by (simp add: qbs_def ops_def s_def)
qed

lemma str_nat_plain: "ch \<in> set (str_nat n) \<Longrightarrow> \<not> is_linebreak ch"
  using str_nat_digits [of n] is_digit_plain by blast

lemma operand_plain: "ch \<in> set (''q['' @ str_nat p @ ''];'') \<Longrightarrow> \<not> is_linebreak ch"
  using str_nat_plain [of ch p] by (auto simp: is_linebreak_def)

lemma operands_plain:
  "ch \<in> set (join '','' (map (\<lambda>p. ''q['' @ str_nat p @ '']'') ps)) \<Longrightarrow> \<not> is_linebreak ch"
proof (induction ps rule: induct_list012)
  case 1
  then show ?case by simp
next
  case (2 p)
  then show ?case using str_nat_plain [of ch p] by (auto simp: is_linebreak_def)
next
  case (3 p q ps)
  from 3(3) have "ch \<in> set (''q['' @ str_nat p @ ''],'')
      \<or> ch \<in> set (join '','' (map (\<lambda>p. ''q['' @ str_nat p @ '']'') (q # ps)))"
    by auto
  then show ?case
  proof
    assume "ch \<in> set (''q['' @ str_nat p @ ''],'')"
    then show ?thesis using str_nat_plain [of ch p] by (auto simp: is_linebreak_def)
  next
    assume "ch \<in> set (join '','' (map (\<lambda>p. ''q['' @ str_nat p @ '']'') (q # ps)))"
    then show ?thesis by (rule 3(2))
  qed
qed

lemma gate_line:
  assumes "recognized g" and "paras_ok str_float eval_para g"
  shows "\<exists>line. gate_to_qasm str_float g = Inr (line @ NL)
           \<and> (\<forall>ch\<in>set line. \<not> is_linebreak ch)
           \<and> (\<forall>st. measured_qubits st = [] \<longrightarrow>
                 (\<exists>st'. import_line eval_para st line = Inr st'
                    \<and> circ st' = (circ st)\<lparr>gates := gates (circ st) @ [rebuilt g]\<rparr>
                    \<and> measured_qubits st' = [] \<and> global_valid st' = global_valid st))"
proof (cases g)
  case (FixedSingleQubitGate name p)
  let ?line = "lower name @ CHR '' '' # ''q['' @ str_nat p @ ''];''"
  from assms(1) have n: "lower name \<in> {''h'', ''x'', ''y'', ''z''}"
    by (simp add: FixedSingleQubitGate)
  have a: "gate_to_qasm str_float g = Inr (?line @ NL)" by (simp add: FixedSingleQubitGate)
  have b: "\<forall>ch\<in>set ?line. \<not> is_linebreak ch"
  proof
    fix ch assume "ch \<in> set ?line"
    then have "ch \<in> set (lower name) \<or> ch = CHR '' '' \<or> ch \<in> set (''q['' @ str_nat p @ ''];'')"
      by auto
    then show "\<not> is_linebreak ch" using n operand_plain [of ch p] by (auto simp: is_linebreak_def)
  qed
  have c: "\<exists>st'. import_line eval_para st ?line = Inr st'
                    \<and> circ st' = (circ st)\<lparr>gates := gates (circ st) @ [rebuilt g]\<rparr>
                    \<and> measured_qubits st' = [] \<and> global_valid st' = global_valid st"
    if "measured_qubits st = []" for st
  proof -
    from import_fixed_single [OF that n, of eval_para p]
    obtain st' where i: "import_line eval_para st ?line = Inr st'"
      and e: "circ st' = (circ st)\<lparr>gates := gates (circ st) @ [rebuilt g]\<rparr>"
        "measured_qubits st' = measured_qubits st" "global_valid st' = global_valid st"
      by (simp add: FixedSingleQubitGate)
    with that show ?thesis by simp
  qed
  from a b c show ?thesis by blast
next
  case (ParaSingleQubitGate name p v)
  let ?line = "(lower name @ ''('' @ float_text str_float v @ '')'') @ CHR '' '' # ''q['' @ str_nat p @ ''];''"
  from assms have n: "lower name \<in> {''rx'', ''ry'', ''rz''}" and v: "v \<noteq> Finite 0"
    and f: "float_text_ok str_float eval_para v"
    by (simp_all add: ParaSingleQubitGate)
  have a: "gate_to_qasm str_float g = Inr (?line @ NL)" by (simp add: ParaSingleQubitGate)
  have b: "\<forall>ch\<in>set ?line. \<not> is_linebreak ch"
  proof
    fix ch assume "ch \<in> set ?line"
    then have "ch \<in> set (lower name) \<or> ch \<in> set (float_text str_float v) \<or> ch \<in> set ''() ''
        \<or> ch \<in> set (''q['' @ str_nat p @ ''];'')"
      by auto
    moreover have "\<not> is_linebreak ch" if "ch \<in> set (lower name)"
      using that n by (auto simp: is_linebreak_def)
    moreover have "\<not> is_linebreak ch" if "ch \<in> set (float_text str_float v)"
      using that f by (simp add: float_text_ok_def)
    moreover have "\<not> is_linebreak ch" if "ch \<in> set ''() ''"
      using that by (auto simp: is_linebreak_def)
    ultimately show "\<not> is_linebreak ch" using operand_plain [of ch p] by blast
  qed
  have c: "\<exists>st'. import_line eval_para st ?line = Inr st'
                    \<and> circ st' = (circ st)\<lparr>gates := gates (circ st) @ [rebuilt g]\<rparr>
                    \<and> measured_qubits st' = [] \<and> global_valid st' = global_valid st"
    if "measured_qubits st = []" for st
  proof -
    from import_rotation [OF that n f v, of p]
    obtain st' where i: "import_line eval_para st ?line = Inr st'"
      and e: "circ st' = (circ st)\<lparr>gates := gates (circ st) @ [rebuilt g]\<rparr>"
        "measured_qubits st' = measured_qubits st" "global_valid st' = global_valid st"
      by (simp add: ParaSingleQubitGate)
    with that show ?thesis by simp
  qed
  from a b c show ?thesis by blast
next
  case (FixedTwoQubitGate name pos)
  from assms(1) have n: "lower name \<in> {''cx'', ''cy'', ''cz'', ''swap''}" and l: "length pos = 2"
    by (simp_all add: FixedTwoQubitGate)
  from l obtain p0 p1 where pos: "pos = [p0, p1]"
    by (cases pos; cases "tl pos") auto
  let ?line = "lower name @ CHR '' '' # ''q['' @ str_nat p0 @ ''],q['' @ str_nat p1 @ ''];''"
  have a: "gate_to_qasm str_float g = Inr (?line @ NL)"
    by (simp add: FixedTwoQubitGate pos py_nth_def)
  have b: "\<forall>ch\<in>set ?line. \<not> is_linebreak ch"
  proof
    fix ch assume "ch \<in> set ?line"
    then have "ch \<in> set (lower name) \<or> ch \<in> set (str_nat p0) \<or> ch \<in> set (str_nat p1)
        \<or> ch \<in> set '' q[],;''"
      by auto
    then show "\<not> is_linebreak ch"
      using n str_nat_plain [of ch p0] str_nat_plain [of ch p1] by (auto simp: is_linebreak_def)
  qed
  have c: "\<exists>st'. import_line eval_para st ?line = Inr st'
                    \<and> circ st' = (circ st)\<lparr>gates := gates (circ st) @ [rebuilt g]\<rparr>
                    \<and> measured_qubits st' = [] \<and> global_valid st' = global_valid st"
    if "measured_qubits st = []" for st
  proof -
    from import_fixed_two [OF that n, of eval_para p0 p1]
    obtain st' where i: "import_line eval_para st ?line = Inr st'"
      and e: "circ st' = (circ st)\<lparr>gates := gates (circ st) @ [rebuilt g]\<rparr>"
        "measured_qubits st' = measured_qubits st" "global_valid st' = global_valid st"
      by (simp add: FixedTwoQubitGate pos)
    with that show ?thesis by simp
  qed
  from a b c show ?thesis by blast
next
  case (ParaTwoQubitGate name pos vs)
  with assms(1) show ?thesis by simp
next
  case (Barrier pos)
  let ?line = "''barrier'' @ CHR '' '' # join '','' (map (\<lambda>p. ''q['' @ str_nat p @ '']'') pos) @ '';''"
  have a: "gate_to_qasm str_float g = Inr (?line @ NL)" by (simp add: Barrier)
  have b: "\<forall>ch\<in>set ?line. \<not> is_linebreak ch"
  proof
    fix ch assume "ch \<in> set ?line"
    then have "ch \<in> set ''barrier ;''
        \<or> ch \<in> set (join '','' (map (\<lambda>p. ''q['' @ str_nat p @ '']'') pos))"
      by auto
    then show "\<not> is_linebreak ch"
      using operands_plain [of ch pos] by (auto simp: is_linebreak_def)
  qed
  have c: "\<exists>st'. import_line eval_para st ?line = Inr st'
                    \<and> circ st' = (circ st)\<lparr>gates := gates (circ st) @ [rebuilt g]\<rparr>
                    \<and> measured_qubits st' = [] \<and> global_valid st' = global_valid st"
    if "measured_qubits st = []" for st
  proof -
    from import_barrier [OF that, of eval_para pos]
    obtain st' where i: "import_line eval_para st ?line = Inr st'"
      and e: "circ st' = (circ st)\<lparr>gates := gates (circ st) @ [rebuilt g]\<rparr>"
        "measured_qubits st' = measured_qubits st" "global_valid st' = global_valid st"
      by (simp add: Barrier)
    with that show ?thesis by simp
  qed
  from a b c show ?thesis by blast
qed

lemma rebuilt_same:
  assumes "recognized g"
  shows "mnemonic (rebuilt g) = mnemonic g" and "positions (rebuilt g) = positions g"
proof -
  have "mnemonic (rebuilt g) = mnemonic g \<and> positions (rebuilt g) = positions g"
  proof (cases g)
    case (FixedSingleQubitGate name p)
    with assms show ?thesis by (auto simp: gate_class_defs lower_def lower_char_def)
  next
    case (ParaSingleQubitGate name p v)
    with assms show ?thesis by (auto simp: gate_class_defs lower_def lower_char_def)
  next
    case (FixedTwoQubitGate name pos)
    with assms have "length pos = 2" by simp
    then obtain p0 p1 where "pos = [p0, p1]" by (cases pos; cases "tl pos") auto
    with assms FixedTwoQubitGate show ?thesis
      by (auto simp: gate_class_defs lower_def lower_char_def)
  next
    case (ParaTwoQubitGate name pos vs)
    with assms show ?thesis by simp
  next
    case (Barrier pos)
    then show ?thesis by simp
  qed
  then show "mnemonic (rebuilt g) = mnemonic g" and "positions (rebuilt g) = positions g"
    by simp_all
qed

lemma import_qreg:
  "import_line eval_para st (''qreg'' @ CHR '' '' # ''q['' @ str_nat n @ ''];'')
     = Inr (st\<lparr>circ := (circ st)\<lparr>num := n\<rparr>\<rparr>)"
proof -
  define qbs where "qbs = ''q['' @ str_nat n @ ''];''"
  have f: "findall_digits qbs = [str_nat n]" unfolding qbs_def by (rule findall_one)
  have s: "split_space1 (''qreg'' @ CHR '' '' # qbs) = [''qreg'', qbs]"
    by (rule split_space1_at) simp
  have "import_line eval_para st (''qreg'' @ CHR '' '' # qbs) = Inr (st\<lparr>circ := (circ st)\<lparr>num := n\<rparr>\<rparr>)"
    unfolding import_line_def s by (simp add: Let_def py_nth_def f int_of_digits_str_nat)
  then show ?thesis by (simp only: qbs_def)
qed

lemma import_creg:
  "import_line eval_para st (''creg'' @ CHR '' '' # rest) = Inr st"
proof -
  have s: "split_space1 (''creg'' @ CHR '' '' # rest) = [''creg'', rest]"
    by (rule split_space1_at) simp
  show ?thesis unfolding import_line_def s by (simp add: Let_def)
qed

lemma import_measure_stmt:
  "import_line eval_para st (''measure'' @ CHR '' '' # ''q['' @ str_nat k @ ''] -> meas['' @ str_nat v @ ''];'')
     = Inr (st\<lparr>circ := (circ st)\<lparr>measures := dict_set (measures (circ st)) k v\<rparr>,
               measured_qubits := measured_qubits st @ [k]\<rparr>)"
proof -
  define qbs where "qbs = ''q['' @ str_nat k @ ''] -> meas['' @ str_nat v @ ''];''"
  have f: "findall_digits qbs = [str_nat k, str_nat v]" unfolding qbs_def by (rule findall_measure)
  have s: "split_space1 (''measure'' @ CHR '' '' # qbs) = [''measure'', qbs]"
    by (rule split_space1_at) simp
  have "import_line eval_para st (''measure'' @ CHR '' '' # qbs)
     = Inr (st\<lparr>circ := (circ st)\<lparr>measures := dict_set (measures (circ st)) k v\<rparr>,
               measured_qubits := measured_qubits st @ [k]\<rparr>)"
    unfolding import_line_def s by (simp add: Let_def py_nth_def f int_of_digits_str_nat)
  then show ?thesis by (simp only: qbs_def)
qed

lemma gates_lines:
  assumes "\<forall>g\<in>set gs. recognized g \<and> paras_ok str_float eval_para g"
  shows "\<exists>lines. gates_to_qasm str_float qasm gs = Inr (qasm @ concat (map (\<lambda>l. l @ NL) lines))
           \<and> (\<forall>l\<in>set lines. \<forall>ch\<in>set l. \<not> is_linebreak ch)
           \<and> (\<forall>st. measured_qubits st = [] \<longrightarrow>
                 (\<exists>st'. import_lines eval_para st lines = Inr st'
                    \<and> circ st' = (circ st)\<lparr>gates := gates (circ st) @ map rebuilt gs\<rparr>
                    \<and> measured_qubits st' = [] \<and> global_valid st' = global_valid st))"
  using assms
proof (induction gs arbitrary: qasm)
  case Nil
  have "gates_to_qasm str_float qasm [] = Inr (qasm @ concat (map (\<lambda>l. l @ NL) []))" by simp
  moreover have "\<forall>st. measured_qubits st = [] \<longrightarrow>
                 (\<exists>st'. import_lines eval_para st [] = Inr st'
                    \<and> circ st' = (circ st)\<lparr>gates := gates (circ st) @ map rebuilt []\<rparr>
                    \<and> measured_qubits st' = [] \<and> global_valid st' = global_valid st)"
    by simp
  ultimately show ?case by (intro exI [of _ "[]"]) simp
next
  case (Cons g gs)
  then have g: "recognized g" "paras_ok str_float eval_para g"
    and rest: "\<forall>g\<in>set gs. recognized g \<and> paras_ok str_float eval_para g"
    by simp_all
  from gate_line [OF g] obtain line where
    l1: "gate_to_qasm str_float g = Inr (line @ NL)"
    and l2: "\<forall>ch\<in>set line. \<not> is_linebreak ch"
    and l3: "\<And>st. measured_qubits st = [] \<Longrightarrow>
                 (\<exists>st'. import_line eval_para st line = Inr st'
                    \<and> circ st' = (circ st)\<lparr>gates := gates (circ st) @ [rebuilt g]\<rparr>
                    \<and> measured_qubits st' = [] \<and> global_valid st' = global_valid st)"
    by blast
  from Cons.IH [OF rest, of "qasm @ line @ NL"] obtain lines where
    r1: "gates_to_qasm str_float (qasm @ line @ NL) gs
           = Inr ((qasm @ line @ NL) @ concat (map (\<lambda>l. l @ NL) lines))"
    and r2: "\<forall>l\<in>set lines. \<forall>ch\<in>set l. \<not> is_linebreak ch"
    and r3: "\<And>st. measured_qubits st = [] \<Longrightarrow>
                 (\<exists>st'. import_lines eval_para st lines = Inr st'
                    \<and> circ st' = (circ st)\<lparr>gates := gates (circ st) @ map rebuilt gs\<rparr>
                    \<and> measured_qubits st' = [] \<and> global_valid st' = global_valid st)"
    by blast
  have a: "gates_to_qasm str_float qasm (g # gs)
             = Inr (qasm @ concat (map (\<lambda>l. l @ NL) (line # lines)))"
    using l1 r1 by simp
  have b: "\<forall>l\<in>set (line # lines). \<forall>ch\<in>set l. \<not> is_linebreak ch"
    using l2 r2 by simp
  have c: "\<exists>st'. import_lines eval_para st (line # lines) = Inr st'
                    \<and> circ st' = (circ st)\<lparr>gates := gates (circ st) @ map rebuilt (g # gs)\<rparr>
                    \<and> measured_qubits st' = [] \<and> global_valid st' = global_valid st"
    if m: "measured_qubits st = []" for st
  proof -
    from l3 [OF m] obtain s1 where
      s1: "import_line eval_para st line = Inr s1"
        "circ s1 = (circ st)\<lparr>gates := gates (circ st) @ [rebuilt g]\<rparr>"
        "measured_qubits s1 = []" "global_valid s1 = global_valid st"
      by blast
    from r3 [OF s1(3)] obtain s2 where
      s2: "import_lines eval_para s1 lines = Inr s2"
        "circ s2 = (circ s1)\<lparr>gates := gates (circ s1) @ map rebuilt gs\<rparr>"
        "measured_qubits s2 = []" "global_valid s2 = global_valid s1"
      by blast
    have "import_lines eval_para st (line # lines) = Inr s2" using s1(1) s2(1) by simp
    moreover have "circ s2 = (circ st)\<lparr>gates := gates (circ st) @ map rebuilt (g # gs)\<rparr>"
      by (simp add: s2(2) s1(2))
    ultimately show ?thesis using s2(3,4) s1(4) by simp
  qed
  from a b c show ?case by blast
qed

lemma measure_lines:
  "\<exists>lines. concat (map measure_to_qasm ms) = concat (map (\<lambda>l. l @ NL) lines)
     \<and> (\<forall>l\<in>set lines. \<forall>ch\<in>set l. \<not> is_linebreak ch)
     \<and> (\<forall>st. \<exists>st'. import_lines eval_para st lines = Inr st'
            \<and> gates (circ st') = gates (circ st) \<and> num (circ st') = num (circ st)
            \<and> global_valid st' = global_valid st)"
proof (induction ms)
  case Nil
  show ?case by (intro exI [of _ "[]"]) simp
next
  case (Cons kv ms)
  then obtain lines where
    r1: "concat (map measure_to_qasm ms) = concat (map (\<lambda>l. l @ NL) lines)"
    and r2: "\<forall>l\<in>set lines. \<forall>ch\<in>set l. \<not> is_linebreak ch"
    and r3: "\<And>st. \<exists>st'. import_lines eval_para st lines = Inr st'
            \<and> gates (circ st') = gates (circ st) \<and> num (circ st') = num (circ st)
            \<and> global_valid st' = global_valid st"
    by blast
  let ?line = "''measure'' @ CHR '' '' # ''q['' @ str_nat (fst kv) @ ''] -> meas['' @ str_nat (snd kv) @ ''];''"
  have a: "concat (map measure_to_qasm (kv # ms)) = concat (map (\<lambda>l. l @ NL) (?line # lines))"
    using r1 by (simp add: measure_to_qasm_def)
  have "\<forall>ch\<in>set ?line. \<not> is_linebreak ch"
  proof
    fix ch assume "ch \<in> set ?line"
    then have "ch \<in> set (str_nat (fst kv)) \<or> ch \<in> set (str_nat (snd kv))
        \<or> ch \<in> set ''measure q[] -> meas[];''"
      by auto
    then show "\<not> is_linebreak ch"
      using str_nat_plain [of ch "fst kv"] str_nat_plain [of ch "snd kv"]
      by (auto simp: is_linebreak_def)
  qed
  with r2 have b: "\<forall>l\<in>set (?line # lines). \<forall>ch\<in>set l. \<not> is_linebreak ch" by simp
  have c: "\<exists>st'. import_lines eval_para st (?line # lines) = Inr st'
            \<and> gates (circ st') = gates (circ st) \<and> num (circ st') = num (circ st)
            \<and> global_valid st' = global_valid st" for st
  proof -
    let ?s1 = "st\<lparr>circ := (circ st)\<lparr>measures := dict_set (measures (circ st)) (fst kv) (snd kv)\<rparr>,
               measured_qubits := measured_qubits st @ [fst kv]\<rparr>"
    have i: "import_line eval_para st ?line = Inr ?s1" by (rule import_measure_stmt)
    from r3 [of ?s1] obtain s2 where
      s2: "import_lines eval_para ?s1 lines = Inr s2" "gates (circ s2) = gates (circ ?s1)"
        "num (circ s2) = num (circ ?s1)" "global_valid s2 = global_valid ?s1"
      by blast
    have "import_lines eval_para st (?line # lines) = Inr s2"
      by (simp only: import_lines.simps i bind_err_simps s2(1))
    then show ?thesis using s2(2,3,4) by simp
  qed
  from a b c show ?case by blast
qed

lemma header_lines_text: "qasm_header c = concat (map (\<lambda>l. l @ NL) (header_lines c))"
  by (simp add: qasm_header_def header_lines_def)

lemma header_lines_plain: "\<forall>l\<in>set (header_lines c). \<forall>ch\<in>set l. \<not> is_linebreak ch"
proof (intro ballI)
  fix l ch assume "l \<in> set (header_lines c)" and ch: "ch \<in> set l"
  then consider "l = header_lines c ! 0" | "l = header_lines c ! 1"
    | "l = ''qreg'' @ CHR '' '' # ''q['' @ str_nat (num c) @ ''];''"
    | "l = ''creg'' @ CHR '' '' # ''meas['' @ str_nat (length (measures c)) @ ''];''"
    by (auto simp: header_lines_def)
  then show "\<not> is_linebreak ch"
  proof cases
    case 1
    with ch show ?thesis by (auto simp: header_lines_def is_linebreak_def)
  next
    case 2
    with ch show ?thesis by (auto simp: header_lines_def is_linebreak_def)
  next
    case 3
    with ch have "ch \<in> set ''qreg q[];'' \<or> ch \<in> set (str_nat (num c))" by auto
    then show ?thesis using str_nat_plain [of ch "num c"] by (auto simp: is_linebreak_def)
  next
    case 4
    with ch have "ch \<in> set ''creg meas[];'' \<or> ch \<in> set (str_nat (length (measures c)))" by auto
    then show ?thesis
      using str_nat_plain [of ch "length (measures c)"] by (auto simp: is_linebreak_def)
  qed
qed

lemma header_lines_drop:
  "drop 2 (header_lines c @ ls)
     = (''qreg'' @ CHR '' '' # ''q['' @ str_nat (num c) @ ''];'')
       # (''creg'' @ CHR '' '' # ''meas['' @ str_nat (length (measures c)) @ ''];'') # ls"
  by (simp add: header_lines_def)

text \<open>
  Every gate that a builder appends is recognized, so a circuit made by the builders from
  an empty circuit has recognized gates only.
\<close>

lemma builders_keep_recognized:
  assumes "\<forall>g\<in>set (gates c). recognized g"
  shows "\<forall>g\<in>set (gates (qc_h c p)). recognized g"
    and "\<forall>g\<in>set (gates (qc_x c p)). recognized g"
    and "\<forall>g\<in>set (gates (qc_y c p)). recognized g"
    and "\<forall>g\<in>set (gates (qc_z c p)). recognized g"
    and "\<forall>g\<in>set (gates (qc_rx c p v)). recognized g"
    and "\<forall>g\<in>set (gates (qc_ry c p v)). recognized g"
    and "\<forall>g\<in>set (gates (qc_rz c p v)). recognized g"
    and "\<forall>g\<in>set (gates (qc_cnot c p q)). recognized g"
    and "\<forall>g\<in>set (gates (qc_cy c p q)). recognized g"
    and "\<forall>g\<in>set (gates (qc_cz c p q)). recognized g"
    and "\<forall>g\<in>set (gates (qc_swap c p q)). recognized g"
    and "\<forall>g\<in>set (gates (qc_barrier c ps)). recognized g"
    and "gates (QuantumCircuit_init n) = []"
  using assms
  by (simp_all add: builder_defs gate_class_defs lower_def lower_char_def QuantumCircuit_init_def)

text \<open>
  C3, as the code has it.  Let the positions be non-negative (they are natural numbers
  here), let every gate of the circuit be recognized (a gate of the builder surface:
  \<^verbatim>\<open>h\<close>, \<^verbatim>\<open>x\<close>, \<^verbatim>\<open>y\<close>, \<^verbatim>\<open>z\<close>; \<^verbatim>\<open>rx\<close>, \<^verbatim>\<open>ry\<close>, \<^verbatim>\<open>rz\<close> with a parameter
  that is not zero; \<^verbatim>\<open>cx\<close>, \<^verbatim>\<open>cy\<close>, \<^verbatim>\<open>cz\<close>, \<^verbatim>\<open>swap\<close> with two positions;
  \<^verbatim>\<open>barrier\<close>), and let the text of every rotation parameter be read back by
  \<^verbatim>\<open>eval\<close> as the same float and contain no space, parenthesis, comma or line
  boundary, which excludes the infinities and not-a-number.  Then the export returns a
  text, the import of that text into any circuit returns without the warning, and the
  imported gate list has the same mnemonics and the same positions, gate by gate in
  program order, as the original; the register size is the same too.  (The exporter
  writes the measurements after all gates, so no statement follows the measurement of
  its qubit.)
\<close>

theorem qasm_round_trip:
  assumes "\<forall>g\<in>set (gates c). recognized g"
    and "\<forall>g\<in>set (gates c). paras_ok str_float eval_para g"
  shows "\<exists>qasm c2.
           to_openqasm str_float c = Inr (qasm, c\<lparr>openqasm := qasm\<rparr>)
         \<and> from_openqasm eval_para c0 qasm = Inr (c2, False)
         \<and> map mnemonic (gates c2) = map mnemonic (gates c)
         \<and> map positions (gates c2) = map positions (gates c)
         \<and> num c2 = num c"
proof -
  from assms have ok: "\<forall>g\<in>set (gates c). recognized g \<and> paras_ok str_float eval_para g"
    by blast
  from gates_lines [OF ok, of "qasm_header c"] obtain glines where
    g1: "gates_to_qasm str_float (qasm_header c) (gates c)
           = Inr (qasm_header c @ concat (map (\<lambda>l. l @ NL) glines))"
    and g2: "\<forall>l\<in>set glines. \<forall>ch\<in>set l. \<not> is_linebreak ch"
    and g3: "\<And>st. measured_qubits st = [] \<Longrightarrow>
                 (\<exists>st'. import_lines eval_para st glines = Inr st'
                    \<and> circ st' = (circ st)\<lparr>gates := gates (circ st) @ map rebuilt (gates c)\<rparr>
                    \<and> measured_qubits st' = [] \<and> global_valid st' = global_valid st)"
    by blast
  from measure_lines [of "measures c" eval_para] obtain mlines where
    m1: "concat (map measure_to_qasm (measures c)) = concat (map (\<lambda>l. l @ NL) mlines)"
    and m2: "\<forall>l\<in>set mlines. \<forall>ch\<in>set l. \<not> is_linebreak ch"
    and m3: "\<And>st. \<exists>st'. import_lines eval_para st mlines = Inr st'
            \<and> gates (circ st') = gates (circ st) \<and> num (circ st') = num (circ st)
            \<and> global_valid st' = global_valid st"
    by blast
  define qasm where "qasm = concat (map (\<lambda>l. l @ NL) (header_lines c @ glines @ mlines))"
  have ex: "to_openqasm str_float c = Inr (qasm, c\<lparr>openqasm := qasm\<rparr>)"
    by (simp add: to_openqasm_def g1 m1 Let_def qasm_def) (simp add: header_lines_text)
  have "splitlines qasm = header_lines c @ glines @ mlines"
    unfolding qasm_def using header_lines_plain [of c] g2 m2 by (intro splitlines_concat) auto
  then have dr: "drop 2 (splitlines qasm)
      = [''qreg'' @ CHR '' '' # ''q['' @ str_nat (num c) @ ''];'',
         ''creg'' @ CHR '' '' # ''meas['' @ str_nat (length (measures c)) @ ''];''] @ glines @ mlines"
    by (simp only: header_lines_drop) simp
  let ?st0 = "import_init c0 qasm"
  let ?s1 = "?st0\<lparr>circ := (circ ?st0)\<lparr>num := num c\<rparr>\<rparr>"
  have h: "import_lines eval_para ?st0
             [''qreg'' @ CHR '' '' # ''q['' @ str_nat (num c) @ ''];'',
              ''creg'' @ CHR '' '' # ''meas['' @ str_nat (length (measures c)) @ ''];'']
           = Inr ?s1"
    by (simp only: import_lines.simps import_qreg import_creg bind_err_simps)
  have "measured_qubits ?s1 = []" by (simp add: import_init_def)
  from g3 [OF this] obtain s2 where
    s2: "import_lines eval_para ?s1 glines = Inr s2"
      "circ s2 = (circ ?s1)\<lparr>gates := gates (circ ?s1) @ map rebuilt (gates c)\<rparr>"
      "global_valid s2 = global_valid ?s1"
    by blast
  from m3 [of s2] obtain s3 where
    s3: "import_lines eval_para s2 mlines = Inr s3" "gates (circ s3) = gates (circ s2)"
      "num (circ s3) = num (circ s2)" "global_valid s3 = global_valid s2"
    by blast
  have run: "import_lines eval_para ?st0 (drop 2 (splitlines qasm)) = Inr s3"
    unfolding dr by (simp only: import_lines_append h s2(1) s3(1) bind_err_simps)
  have gs3: "gates (circ s3) = map rebuilt (gates c)"
    by (simp add: s3(2) s2(2) import_init_def)
  have ns3: "num (circ s3) = num c" by (simp add: s3(3) s2(2))
  have vs3: "global_valid s3" by (simp add: s3(4) s2(3) import_init_def)
  define c2 where "c2 = fst (import_finish s3)"
  have fin: "import_finish s3 = (c2, False)"
    using vs3 by (simp add: c2_def import_finish_def Let_def)
  have im: "from_openqasm eval_para c0 qasm = Inr (c2, False)"
    by (simp add: from_openqasm_def Let_def run fin)
  have gc2: "gates c2 = map rebuilt (gates c)" and nc2: "num c2 = num c"
    using gs3 ns3 by (simp_all add: c2_def import_finish_def Let_def)
  have mn: "map mnemonic (gates c2) = map mnemonic (gates c)"
    unfolding gc2 using assms(1) by (simp add: rebuilt_same)
  have ps: "map positions (gates c2) = map positions (gates c)"
    unfolding gc2 using assms(1) by (simp add: rebuilt_same)
  from ex im mn ps nc2 show ?thesis by blast
qed

lemma roundtrip_gates:
  "gates roundtrip_circuit
     = [HGate 0, RXGate 1 (Finite (1 / 2)), CXGate [2, 0], Barrier [0, 2], RZGate 1 (Finite (- 2)),
        SwapGate [1, 2]]"
  by (simp add: roundtrip_circuit_def builder_defs QuantumCircuit_init_def)

theorem qasm_round_trip_witness:
  "list_all recognized (gates roundtrip_circuit)
   \<and> list_all (paras_ok demo_str_float demo_eval_para) (gates roundtrip_circuit)
   \<and> gates roundtrip_circuit
       = [HGate 0, RXGate 1 (Finite (1 / 2)), CXGate [2, 0], Barrier [0, 2], RZGate 1 (Finite (- 2)),
        SwapGate [1, 2]]
   \<and> (\<exists>qasm c2.
           to_openqasm demo_str_float roundtrip_circuit = Inr (qasm, roundtrip_circuit\<lparr>openqasm := qasm\<rparr>)
         \<and> from_openqasm demo_eval_para (QuantumCircuit_init 0) qasm = Inr (c2, False)
         \<and> map mnemonic (gates c2) = map mnemonic (gates roundtrip_circuit)
         \<and> map positions (gates c2) = map positions (gates roundtrip_circuit)
         \<and> num c2 = num roundtrip_circuit)"
proof -
  have a: "\<forall>g\<in>set (gates roundtrip_circuit). recognized g"
    by (simp add: roundtrip_gates gate_class_defs lower_def lower_char_def)
  have b: "\<forall>g\<in>set (gates roundtrip_circuit). paras_ok demo_str_float demo_eval_para g"
    by (simp add: roundtrip_gates gate_class_defs float_text_ok_def demo_str_float_def
        demo_eval_para_def py_eval_def is_linebreak_def)
  from qasm_round_trip [OF a b, of "QuantumCircuit_init 0"] a b roundtrip_gates
  show ?thesis unfolding list_all_iff by blast
qed

lemma inf_circuit_gates: "gates inf_circuit = [RXGate 0 PosInf]"
  by (simp add: inf_circuit_def qc_rx_def QuantumCircuit_init_def)

lemma inf_export:
  "to_openqasm str_float inf_circuit = Inr (inf_qasm, inf_circuit\<lparr>openqasm := inf_qasm\<rparr>)"
proof -
  have m: "measures inf_circuit = [(0, 0)]" "num inf_circuit = 1"
    by (simp_all add: inf_circuit_def qc_rx_def QuantumCircuit_init_def dict_of_def upt_rec)
  show ?thesis
    by (simp add: to_openqasm_def inf_circuit_gates m gate_class_defs string_defs Let_def
        inf_qasm_def inf_statements_def)
qed

lemma inf_import: "from_openqasm eval_para c inf_qasm = Inl NameError"
  by (simp add: from_openqasm_def inf_qasm_def inf_statements_def string_defs Let_def
      import_init_def import_line_def import_gate_def py_eval_def)

text \<open>
  The claim C3 as stated fails: \<^verbatim>\<open>rx(0, inf)\<close> appends a rotation, whose mnemonic the
  importer recognizes; the exporter writes \<^verbatim>\<open>rx(inf) q[0];\<close> for it, and the import of
  that text raises \<^verbatim>\<open>NameError\<close> and yields no gate list.
\<close>

theorem inf_parameter_counterexample:
  "gates inf_circuit = [RXGate 0 PosInf]
   \<and> mnemonic (RXGate 0 PosInf) = ''rx''
   \<and> to_openqasm demo_str_float inf_circuit = Inr (inf_qasm, inf_circuit\<lparr>openqasm := inf_qasm\<rparr>)
   \<and> from_openqasm demo_eval_para (QuantumCircuit_init 0) inf_qasm = Inl NameError"
  using inf_circuit_gates inf_export [of demo_str_float]
    inf_import [of demo_eval_para "QuantumCircuit_init 0"]
  by (simp add: RXGate_def lower_def lower_char_def)

text \<open>
  A negative position is written with its sign and read back without it: the importer
  collects the runs of digits only.
\<close>

lemma negative_position_sign_lost:
  "str_int (- 1) = ''-1''"
  "map int_of_digits (findall_digits (''q['' @ str_int (- 1) @ ''];'')) = [1]"
  "measured_qubits st = [] \<Longrightarrow>
   import_line eval_para st (''h q['' @ str_int (- 1) @ ''];'')
     = Inr (st\<lparr>circ := (circ st)\<lparr>gates := gates (circ st) @ [HGate 1]\<rparr>\<rparr>)"
  by (simp_all add: str_int_def string_defs import_line_def import_gate_def apply_gate_def
      qc_h_def Let_def)

section \<open>Index tuples\<close>

lemma unravel_length: "length (unravel shp f) = length shp"
  by (induction shp arbitrary: f) simp_all

lemma ravel_unravel: "f < prod_list shp \<Longrightarrow> ravel shp (unravel shp f) = f"
proof (induction shp arbitrary: f)
  case Nil
  then show ?case by simp
next
  case (Cons s ss)
  have pos: "0 < prod_list ss" using Cons.prems by (cases "prod_list ss = 0") simp_all
  then have "f mod prod_list ss < prod_list ss" by simp
  from Cons.IH [OF this] show ?case by simp
qed

lemma unravel_bound:
  "f < prod_list shp \<Longrightarrow> i < length shp \<Longrightarrow> unravel shp f ! i < shp ! i"
proof (induction shp arbitrary: f i)
  case Nil
  then show ?case by simp
next
  case (Cons s ss)
  have pos: "0 < prod_list ss" using Cons.prems(1) by (cases "prod_list ss = 0") simp_all
  show ?case
  proof (cases i)
    case 0
    have "f div prod_list ss < s"
      using Cons.prems(1) pos by (simp add: less_mult_imp_div_less mult.commute)
    then show ?thesis using 0 by simp
  next
    case (Suc i')
    have "f mod prod_list ss < prod_list ss" using pos by simp
    from Cons.IH [OF this, of i'] Cons.prems(2) Suc show ?thesis by simp
  qed
qed

lemma ravel_bound:
  "length idx = length shp \<Longrightarrow> \<forall>i<length shp. idx ! i < shp ! i \<Longrightarrow> ravel shp idx < prod_list shp"
proof (induction shp idx rule: ravel.induct)
  case (1 s ss i js)
  have i: "i < s" using 1(3) by auto
  have "\<forall>j<length ss. js ! j < ss ! j" using 1(3) by auto
  with 1 have r: "ravel ss js < prod_list ss" by simp
  have "i * prod_list ss + ravel ss js < i * prod_list ss + prod_list ss" using r by simp
  also have "\<dots> = Suc i * prod_list ss" by simp
  also have "\<dots> \<le> s * prod_list ss" using i by (intro mult_le_mono1) simp
  finally show ?case by simp
qed simp_all

lemma unravel_ravel:
  "length idx = length shp \<Longrightarrow> \<forall>i<length shp. idx ! i < shp ! i \<Longrightarrow> unravel shp (ravel shp idx) = idx"
proof (induction shp idx rule: ravel.induct)
  case (1 s ss i js)
  have b: "\<forall>j<length ss. js ! j < ss ! j" using 1(3) by auto
  have l: "length js = length ss" using 1(2) by simp
  have r: "ravel ss js < prod_list ss" using l b by (rule ravel_bound)
  have ih: "unravel ss (ravel ss js) = js" using 1(1) l b by simp
  have d: "(i * prod_list ss + ravel ss js) div prod_list ss = i" using r by simp
  have m: "(i * prod_list ss + ravel ss js) mod prod_list ss = ravel ss js" using r by simp
  have m': "ravel ss js mod prod_list ss = ravel ss js" using r by simp
  show ?case by (simp add: d m m' ih)
qed simp_all


section \<open>Permutations as lists\<close>

lemma perm_facts:
  assumes "sort xs = [0 ..< n]"
  shows "length xs = n" and "distinct xs" and "set xs = {0 ..< n}"
proof -
  have "length (sort xs) = n" by (simp add: assms)
  then show "length xs = n" by simp
  have "distinct (sort xs)" by (simp only: assms) simp
  then show "distinct xs" by simp
  have "set (sort xs) = {0 ..< n}" by (simp only: assms) simp
  then show "set xs = {0 ..< n}" by simp
qed

lemma perm_intro:
  assumes "length xs = n" and "set xs = {0 ..< n}"
  shows "sort xs = [0 ..< n]"
proof -
  have "card (set xs) = length xs" by (simp add: assms)
  then have d: "distinct xs" by (rule card_distinct)
  show ?thesis
    by (rule sorted_distinct_set_unique) (simp_all add: d assms(2))
qed

lemma pos_of_nth: "x \<in> set xs \<Longrightarrow> pos_of xs x < length xs \<and> xs ! pos_of xs x = x"
proof (induction xs)
  case Nil
  then show ?case by simp
next
  case (Cons a xs)
  then show ?case by (cases "a = x") (auto simp: pos_of_def)
qed

lemma pos_of_unique:
  assumes "distinct xs" and "i < length xs" and "xs ! i = x"
  shows "pos_of xs x = i"
proof -
  have "x \<in> set xs" using assms(2,3) by auto
  from pos_of_nth [OF this] have "pos_of xs x < length xs" "xs ! pos_of xs x = xs ! i"
    using assms(3) by simp_all
  with assms(1,2) show ?thesis by (simp add: nth_eq_iff_index_eq)
qed

lemma inverse_perm_props:
  assumes "sort p = [0 ..< k]"
  shows "sort (inverse_perm p) = [0 ..< k]"
    and "\<forall>j<k. p ! (inverse_perm p ! j) = j"
    and "\<forall>i<k. inverse_perm p ! (p ! i) = i"
proof -
  note pf = perm_facts [OF assms]
  have inv: "inverse_perm p ! j = pos_of p j" if "j < k" for j
    using that pf(1) by (simp add: inverse_perm_def)
  show a: "\<forall>j<k. p ! (inverse_perm p ! j) = j"
  proof (intro allI impI)
    fix j assume j: "j < k"
    then have "j \<in> set p" using pf(3) by simp
    from pos_of_nth [OF this] show "p ! (inverse_perm p ! j) = j" by (simp add: inv [OF j])
  qed
  show b: "\<forall>i<k. inverse_perm p ! (p ! i) = i"
  proof (intro allI impI)
    fix i assume i: "i < k"
    then have "p ! i \<in> set p" using pf(1) by simp
    then have "p ! i < k" using pf(3) by simp
    from inv [OF this] have "inverse_perm p ! (p ! i) = pos_of p (p ! i)" .
    also have "\<dots> = i" using pf(1,2) i by (intro pos_of_unique) simp_all
    finally show "inverse_perm p ! (p ! i) = i" .
  qed
  have l: "length (inverse_perm p) = k" using pf(1) by (simp add: inverse_perm_def)
  have "set (inverse_perm p) = {0 ..< k}"
  proof (intro set_eqI iffI)
    fix x assume "x \<in> set (inverse_perm p)"
    then obtain j where j: "j < k" and x: "x = pos_of p j"
      using pf(1) by (auto simp: inverse_perm_def)
    from j have "j \<in> set p" using pf(3) by simp
    from pos_of_nth [OF this] show "x \<in> {0 ..< k}" using x pf(1) by simp
  next
    fix x assume "x \<in> {0 ..< k}"
    then have x: "x < k" by simp
    then have "p ! x \<in> set p" using pf(1) by simp
    then have px: "p ! x < k" using pf(3) by simp
    have "inverse_perm p ! (p ! x) = x" using b x by simp
    moreover have "inverse_perm p ! (p ! x) \<in> set (inverse_perm p)" using px l by simp
    ultimately show "x \<in> set (inverse_perm p)" by simp
  qed
  with l show "sort (inverse_perm p) = [0 ..< k]" by (rule perm_intro)
qed

lemma argsort_perm:
  assumes "sort p = [0 ..< k]"
  shows "argsort p = inverse_perm p"
proof -
  note pf = perm_facts [OF assms]
  define zs where "zs = sort_key fst (zip p [0 ..< k])"
  have lz: "length zs = k" using pf(1) by (simp add: zs_def)
  have "set (map fst zs) = set (map fst (zip p [0 ..< k]))"
    unfolding zs_def by simp
  also have "map fst (zip p [0 ..< k]) = p" using pf(1) by simp
  finally have sz: "set (map fst zs) = {0 ..< k}" using pf(3) by simp
  have "card (set (map fst zs)) = length (map fst zs)" using sz lz by simp
  then have dz: "distinct (map fst zs)" by (rule card_distinct)
  have "sorted (map fst zs)" unfolding zs_def by (rule sorted_sort_key)
  moreover note dz sz
  ultimately have fz: "map fst zs = [0 ..< k]"
    by (intro sorted_distinct_set_unique) simp_all
  have as: "argsort p = map snd zs" using pf(1) by (simp add: argsort_def zs_def)
  show ?thesis
  proof (rule nth_equalityI)
    show "length (argsort p) = length (inverse_perm p)"
      using lz pf(1) by (simp add: as inverse_perm_def)
  next
    fix j assume "j < length (argsort p)"
    then have j: "j < k" using lz by (simp add: as)
    have "zs ! j \<in> set zs" using j lz by simp
    then have "zs ! j \<in> set (zip p [0 ..< k])" by (simp add: zs_def)
    then obtain i where i: "i < k" and z: "zs ! j = (p ! i, i)"
      using pf(1) by (auto simp: set_zip)
    have "fst (zs ! j) = j" using fz j lz by (metis nth_map nth_upt add_0)
    with z have pi: "p ! i = j" by simp
    have "argsort p ! j = i" using z j lz by (simp add: as)
    moreover have "inverse_perm p ! j = i"
      using inverse_perm_props(3) [OF assms] i pi by auto
    ultimately show "argsort p ! j = inverse_perm p ! j" by simp
  qed
qed

lemma double_perm:
  assumes "sort s = [0 ..< k]"
  shows "sort (s @ map (\<lambda>i. i + k) s) = [0 ..< 2 * k]"
proof (rule perm_intro)
  note sf = perm_facts [OF assms]
  show "length (s @ map (\<lambda>i. i + k) s) = 2 * k" using sf(1) by simp
  have "(\<lambda>i. i + k) ` {0 ..< k} = {k ..< 2 * k}"
  proof (intro set_eqI iffI)
    fix x assume "x \<in> (\<lambda>i. i + k) ` {0 ..< k}"
    then show "x \<in> {k ..< 2 * k}" by auto
  next
    fix x assume "x \<in> {k ..< 2 * k}"
    then have "x - k \<in> {0 ..< k}" "x = (x - k) + k" by auto
    then show "x \<in> (\<lambda>i. i + k) ` {0 ..< k}" by (rule rev_image_eqI)
  qed
  then show "set (s @ map (\<lambda>i. i + k) s) = {0 ..< 2 * k}" using sf(3) by auto
qed

lemma double_nth:
  assumes "length s = k" and "m < 2 * k"
  shows "(s @ map (\<lambda>i. i + k) s) ! m = (if m < k then s ! m else s ! (m - k) + k)"
  using assms by (simp add: nth_append)

lemma double_inverse:
  assumes "sort s = [0 ..< k]" and "sort t = [0 ..< k]" and "\<forall>m<k. t ! (s ! m) = m" and "m < 2 * k"
  shows "(t @ map (\<lambda>i. i + k) t) ! ((s @ map (\<lambda>i. i + k) s) ! m) = m"
proof -
  note sf = perm_facts [OF assms(1)] and tf = perm_facts [OF assms(2)]
  have sb: "s ! i < k" if "i < k" for i
  proof -
    have "s ! i \<in> set s" using that sf(1) by simp
    then show ?thesis using sf(3) by simp
  qed
  show ?thesis
  proof (cases "m < k")
    case True
    then show ?thesis
      using sb [OF True] assms(3) by (simp add: double_nth [OF sf(1)] double_nth [OF tf(1)])
  next
    case False
    then have mk: "m - k < k" using assms(4) by simp
    have "(s @ map (\<lambda>i. i + k) s) ! m = s ! (m - k) + k"
      using False assms(4) by (simp add: double_nth [OF sf(1)])
    moreover have "(t @ map (\<lambda>i. i + k) t) ! (s ! (m - k) + k) = t ! (s ! (m - k)) + k"
      using sb [OF mk] by (simp add: double_nth [OF tf(1)])
    ultimately show ?thesis using assms(3) mk False by simp
  qed
qed


section \<open>Transposing a tensor of qubits\<close>

lemma prod_list_cube: "prod_list (replicate n 2) = (2::nat) ^ n"
  by (induction n) simp_all

lemma perm_nth_less:
  assumes "sort xs = [0 ..< n]" and "m < n"
  shows "xs ! m < n"
proof -
  have "xs ! m \<in> set xs" using perm_facts(1) [OF assms(1)] assms(2) by simp
  then show ?thesis using perm_facts(3) [OF assms(1)] by simp
qed

lemma perm_pos_of:
  assumes "sort xs = [0 ..< n]" and "j < n"
  shows "pos_of xs j < n" and "xs ! pos_of xs j = j"
proof -
  have "j \<in> set xs" using perm_facts(3) [OF assms(1)] assms(2) by simp
  from pos_of_nth [OF this] show "pos_of xs j < n" and "xs ! pos_of xs j = j"
    using perm_facts(1) [OF assms(1)] by simp_all
qed

lemma transpose_cube:
  assumes "shape a = replicate n 2" and "sort axes = [0 ..< n]"
  shows "transpose_nd axes a =
           Inr \<lparr> shape = replicate n 2,
                 entries = map (\<lambda>f. entries a ! ravel (replicate n 2)
                                       (map (\<lambda>j. unravel (replicate n 2) f ! pos_of axes j) [0 ..< n]))
                             [0 ..< 2 ^ n] \<rparr>"
proof -
  have "map (\<lambda>m. replicate n (2::nat) ! (axes ! m)) [0 ..< n] = map (\<lambda>m. 2) [0 ..< n]"
    using perm_nth_less [OF assms(2)] by (intro map_cong) simp_all
  also have "\<dots> = replicate n 2" by (simp add: map_replicate_const)
  finally have ns: "map (\<lambda>m. replicate n (2::nat) ! (axes ! m)) [0 ..< n] = replicate n 2" .
  show ?thesis
    by (simp add: transpose_nd_def assms Let_def ns prod_list_cube)
qed

lemma permuted_index:
  assumes "sort axes = [0 ..< n]" and "f < 2 ^ n"
  shows "length (map (\<lambda>j. unravel (replicate n 2) f ! pos_of axes j) [0 ..< n]) = length (replicate n (2::nat))"
    and "\<forall>i<length (replicate n (2::nat)).
           map (\<lambda>j. unravel (replicate n 2) f ! pos_of axes j) [0 ..< n] ! i < replicate n 2 ! i"
proof -
  show "length (map (\<lambda>j. unravel (replicate n 2) f ! pos_of axes j) [0 ..< n]) = length (replicate n (2::nat))"
    by simp
  show "\<forall>i<length (replicate n (2::nat)).
           map (\<lambda>j. unravel (replicate n 2) f ! pos_of axes j) [0 ..< n] ! i < replicate n 2 ! i"
  proof (intro allI impI)
    fix i assume "i < length (replicate n (2::nat))"
    then have i: "i < n" by simp
    have p: "pos_of axes i < n" by (rule perm_pos_of(1) [OF assms(1) i])
    have "unravel (replicate n 2) f ! pos_of axes i < replicate n 2 ! pos_of axes i"
      using assms(2) p by (intro unravel_bound) (simp_all add: prod_list_cube)
    then show "map (\<lambda>j. unravel (replicate n 2) f ! pos_of axes j) [0 ..< n] ! i < replicate n 2 ! i"
      using i p by simp
  qed
qed

lemma transpose_twice:
  fixes a :: "'a ndarray"
  assumes "shape a = replicate n 2" and "length (entries a) = 2 ^ n"
    and "sort s = [0 ..< n]" and "sort t = [0 ..< n]" and "\<forall>m<n. t ! (s ! m) = m"
  shows "bind_err (transpose_nd s a) (transpose_nd t) = Inr a"
proof -
  let ?S = "replicate n (2::nat)"
  let ?P = "\<lambda>axes f. map (\<lambda>j. unravel ?S f ! pos_of axes j) [0 ..< n]"
  let ?b = "\<lparr> shape = ?S, entries = map (\<lambda>f. entries a ! ravel ?S (?P s f)) [0 ..< 2 ^ n] \<rparr>"
  have 1: "transpose_nd s a = Inr ?b" by (rule transpose_cube [OF assms(1,3)])
  have 2: "transpose_nd t ?b
             = Inr \<lparr> shape = ?S, entries = map (\<lambda>f. entries ?b ! ravel ?S (?P t f)) [0 ..< 2 ^ n] \<rparr>"
    by (rule transpose_cube [OF _ assms(4)]) simp
  have e: "entries ?b ! ravel ?S (?P t f) = entries a ! f" if f: "f < 2 ^ n" for f
  proof -
    note v = permuted_index [OF assms(4) f]
    have rb: "ravel ?S (?P t f) < 2 ^ n"
      using ravel_bound [OF v] by (simp add: prod_list_cube)
    have ur: "unravel ?S (ravel ?S (?P t f)) = ?P t f" by (rule unravel_ravel [OF v])
    have "?P s (ravel ?S (?P t f)) = unravel ?S f"
    proof (rule nth_equalityI)
      show "length (?P s (ravel ?S (?P t f))) = length (unravel ?S f)"
        by (simp add: unravel_length)
    next
      fix j assume "j < length (?P s (ravel ?S (?P t f)))"
      then have j: "j < n" by simp
      define m where "m = pos_of s j"
      have m: "m < n" "s ! m = j" unfolding m_def by (rule perm_pos_of [OF assms(3) j])+
      have tj: "t ! j = m" using assms(5) m by auto
      have "pos_of t m = j"
        using perm_facts(1,2) [OF assms(4)] j tj by (intro pos_of_unique) simp_all
      then show "?P s (ravel ?S (?P t f)) ! j = unravel ?S f ! j"
        using j m(1) by (simp add: ur m_def [symmetric])
    qed
    then have "entries ?b ! ravel ?S (?P t f) = entries a ! ravel ?S (unravel ?S f)"
      using rb by simp
    also have "\<dots> = entries a ! f"
      using f by (simp add: ravel_unravel prod_list_cube)
    finally show ?thesis .
  qed
  have "map (\<lambda>f. entries ?b ! ravel ?S (?P t f)) [0 ..< 2 ^ n] = map (\<lambda>f. entries a ! f) [0 ..< 2 ^ n]"
    using e by (intro map_cong) simp_all
  also have "\<dots> = entries a" using assms(2) by (metis map_nth)
  finally have "transpose_nd t ?b = Inr \<lparr> shape = ?S, entries = entries a \<rparr>"
    using 2 by simp
  moreover have "\<lparr> shape = ?S, entries = entries a \<rparr> = a" using assms(1) by (cases a) simp
  ultimately show ?thesis using 1 by simp
qed

lemma transpose_identity:
  fixes a :: "'a ndarray"
  assumes "shape a = replicate n 2" and "length (entries a) = 2 ^ n"
  shows "transpose_nd [0 ..< n] a = Inr a"
proof -
  let ?S = "replicate n (2::nat)"
  have p: "sort [0 ..< n] = [0 ..< n]" by (simp add: sorted_sort_id)
  have pid: "pos_of [0 ..< n] j = j" if "j < n" for j
    using that by (intro pos_of_unique) simp_all
  have e: "entries a ! ravel ?S (map (\<lambda>j. unravel ?S f ! pos_of [0 ..< n] j) [0 ..< n]) = entries a ! f"
    if f: "f < 2 ^ n" for f
  proof -
    have "map (\<lambda>j. unravel ?S f ! pos_of [0 ..< n] j) [0 ..< n] = map (\<lambda>j. unravel ?S f ! j) [0 ..< n]"
      using pid by (intro map_cong) simp_all
    also have "\<dots> = unravel ?S f"
      using map_nth [of "unravel ?S f"] by (simp add: unravel_length)
    finally show ?thesis using f by (simp add: ravel_unravel prod_list_cube)
  qed
  have "map (\<lambda>f. entries a ! ravel ?S (map (\<lambda>j. unravel ?S f ! pos_of [0 ..< n] j) [0 ..< n])) [0 ..< 2 ^ n]
          = map (\<lambda>f. entries a ! f) [0 ..< 2 ^ n]"
    using e by (intro map_cong) simp_all
  also have "\<dots> = entries a" using assms(2) by (metis map_nth)
  finally have "transpose_nd [0 ..< n] a = Inr \<lparr> shape = ?S, entries = entries a \<rparr>"
    using transpose_cube [OF assms(1) p] by simp
  moreover have "\<lparr> shape = ?S, entries = entries a \<rparr> = a" using assms(1) by (cases a) simp
  ultimately show ?thesis by simp
qed


section \<open>Reordering a matrix\<close>

lemma reorder_matrix_perm:
  fixes M :: "'a ndarray"
  assumes "length (entries M) = 2 ^ k * 2 ^ k" and "sort p = [0 ..< k]"
  shows "reorder_matrix M p =
           bind_err (transpose_nd (inverse_perm p @ map (\<lambda>i. i + k) (inverse_perm p))
                       (M\<lparr>shape := replicate (2 * k) 2\<rparr>))
             (\<lambda>t. Inr (t\<lparr>shape := [2 ^ k, 2 ^ k]\<rparr>))"
proof -
  have l: "length p = k" by (rule perm_facts(1) [OF assms(2)])
  have sz: "prod_list (replicate (2 * k) 2) = length (entries M)"
    by (simp add: prod_list_cube assms(1) power_add mult_2)
  let ?ax = "inverse_perm p @ map (\<lambda>i. i + k) (inverse_perm p)"
  let ?a = "M\<lparr>shape := replicate (2 * k) 2\<rparr>"
  have ax: "sort ?ax = [0 ..< 2 * k]"
    by (rule double_perm) (rule inverse_perm_props(1) [OF assms(2)])
  have t: "transpose_nd ?ax ?a
             = Inr \<lparr> shape = replicate (2 * k) 2,
                 entries = map (\<lambda>f. entries ?a ! ravel (replicate (2 * k) 2)
                                       (map (\<lambda>j. unravel (replicate (2 * k) 2) f ! pos_of ?ax j) [0 ..< 2 * k]))
                             [0 ..< 2 ^ (2 * k)] \<rparr>"
    by (rule transpose_cube [OF _ ax]) simp
  have r: "reshape [2 ^ k, 2 ^ k] b = Inr (b\<lparr>shape := [2 ^ k, 2 ^ k]\<rparr>)"
    if "length (entries b) = 2 ^ (2 * k)" for b :: "'a ndarray"
    using that by (simp add: reshape_def power_add mult_2)
  have r1: "reshape (replicate (2 * k) 2) M = Inr ?a"
    by (simp add: reshape_def assms(1) power_add mult_2)
  show ?thesis
    unfolding reorder_matrix_def Let_def l argsort_perm [OF assms(2)]
    by (simp add: r1 t r)
qed

text \<open>
  C7.  For a matrix of side \<open>2^k\<close> and a permutation \<open>p\<close> of \<open>0, ..., k - 1\<close>,
  \<^verbatim>\<open>reorder_matrix\<close> by \<open>p\<close> and then by the inverse of \<open>p\<close> returns, without raising,
  the matrix itself: the same shape and the same entries.  Reordering by the identity
  permutation returns the matrix itself too.
\<close>

theorem reorder_inverse_is_identity:
  fixes M :: "'a ndarray"
  assumes "shape M = [2 ^ k, 2 ^ k]" and "length (entries M) = 2 ^ k * 2 ^ k"
    and "length p = k" and "set p = {0 ..< k}"
  shows "bind_err (reorder_matrix M p) (\<lambda>M'. reorder_matrix M' (inverse_perm p)) = Inr M
       \<and> reorder_matrix M [0 ..< k] = Inr M"
proof
  have p: "sort p = [0 ..< k]" using assms(3,4) by (rule perm_intro)
  note q = inverse_perm_props [OF p]
  let ?s = "inverse_perm p @ map (\<lambda>i. i + k) (inverse_perm p)"
  let ?t = "inverse_perm (inverse_perm p) @ map (\<lambda>i. i + k) (inverse_perm (inverse_perm p))"
  let ?a = "M\<lparr>shape := replicate (2 * k) 2\<rparr>"
  have sa: "shape ?a = replicate (2 * k) 2" by simp
  have la: "length (entries ?a) = 2 ^ (2 * k)" by (simp add: assms(2) power_add mult_2)
  have s: "sort ?s = [0 ..< 2 * k]" by (rule double_perm [OF q(1)])
  have qq: "sort (inverse_perm (inverse_perm p)) = [0 ..< k]" by (rule inverse_perm_props(1) [OF q(1)])
  have t: "sort ?t = [0 ..< 2 * k]" by (rule double_perm [OF qq])
  have inv: "\<forall>m<k. inverse_perm (inverse_perm p) ! (inverse_perm p ! m) = m"
    by (rule inverse_perm_props(3) [OF q(1)])
  have st: "\<forall>m<2 * k. ?t ! (?s ! m) = m"
    using double_inverse [OF q(1) qq inv] by blast
  have tw: "bind_err (transpose_nd ?s ?a) (transpose_nd ?t) = Inr ?a"
    by (rule transpose_twice [OF sa la s t st])
  obtain b where b: "transpose_nd ?s ?a = Inr b" and tb: "transpose_nd ?t b = Inr ?a"
    using tw by (cases "transpose_nd ?s ?a") simp_all
  have sb: "shape b = replicate (2 * k) 2" and lb: "length (entries b) = 2 ^ (2 * k)"
    using b transpose_cube [OF sa s] by auto
  have 1: "reorder_matrix M p = Inr (b\<lparr>shape := [2 ^ k, 2 ^ k]\<rparr>)"
    by (simp add: reorder_matrix_perm [OF assms(2) p] b)
  have lb': "length (entries (b\<lparr>shape := [2 ^ k, 2 ^ k]\<rparr>)) = 2 ^ k * 2 ^ k"
    using lb by (simp add: power_add mult_2)
  have bb: "b\<lparr>shape := [2 ^ k, 2 ^ k]\<rparr>\<lparr>shape := replicate (2 * k) 2\<rparr> = b"
    using sb by (cases b) simp
  have 2: "reorder_matrix (b\<lparr>shape := [2 ^ k, 2 ^ k]\<rparr>) (inverse_perm p) = Inr M"
    using assms(1) by (simp add: reorder_matrix_perm [OF lb' q(1)] bb tb)
  show "bind_err (reorder_matrix M p) (\<lambda>M'. reorder_matrix M' (inverse_perm p)) = Inr M"
    by (simp add: 1 2)
next
  have i: "sort [0 ..< k] = [0 ..< k]" by (simp add: sorted_sort_id)
  have pid: "pos_of [0 ..< k] j = j" if "j < k" for j
    using that by (intro pos_of_unique) simp_all
  have "map (pos_of [0 ..< k]) [0 ..< k] = map (\<lambda>j. j) [0 ..< k]"
    using pid by (intro map_cong) simp_all
  then have ii: "inverse_perm [0 ..< k] = [0 ..< k]"
    by (simp add: inverse_perm_def)
  have ax: "[0 ..< k] @ map (\<lambda>i. i + k) [0 ..< k] = [0 ..< 2 * k]"
  proof (rule nth_equalityI)
    show "length ([0 ..< k] @ map (\<lambda>i. i + k) [0 ..< k]) = length [0 ..< 2 * k]" by simp
  next
    fix m assume "m < length ([0 ..< k] @ map (\<lambda>i. i + k) [0 ..< k])"
    then have m: "m < 2 * k" by simp
    show "([0 ..< k] @ map (\<lambda>i. i + k) [0 ..< k]) ! m = [0 ..< 2 * k] ! m"
    proof (cases "m < k")
      case True
      then show ?thesis using m by (simp add: nth_append)
    next
      case False
      then have "m - k < k" using m by simp
      then show ?thesis using m False by (simp add: nth_append)
    qed
  qed
  let ?a = "M\<lparr>shape := replicate (2 * k) 2\<rparr>"
  have "transpose_nd [0 ..< 2 * k] ?a = Inr ?a"
    by (rule transpose_identity) (simp_all add: assms(2) power_add mult_2)
  then show "reorder_matrix M [0 ..< k] = Inr M"
    using assms(1) by (simp add: reorder_matrix_perm [OF assms(2) i] ii ax)
qed

theorem reorder_inverse_is_identity_witness:
  "shape sample_matrix = [2 ^ 2, 2 ^ 2]
   \<and> length (entries sample_matrix) = 2 ^ 2 * 2 ^ 2
   \<and> length [1, 0 :: nat] = 2
   \<and> set [1, 0 :: nat] = {0 ..< 2}
   \<and> bind_err (reorder_matrix sample_matrix [1, 0]) (\<lambda>M'. reorder_matrix M' (inverse_perm [1, 0]))
       = Inr sample_matrix
   \<and> reorder_matrix sample_matrix [0 ..< 2] = Inr sample_matrix"
proof -
  have a: "shape sample_matrix = [2 ^ 2, 2 ^ 2]" by (simp add: sample_matrix_def)
  have b: "length (entries sample_matrix) = 2 ^ 2 * 2 ^ 2" by (simp add: sample_matrix_def)
  have c: "length [1, 0 :: nat] = 2" by simp
  have d: "set [1, 0 :: nat] = {0 ..< 2}" by auto
  from reorder_inverse_is_identity [OF a b c d] a b c d show ?thesis by blast
qed

section \<open>The controlled-gate embedding\<close>

text \<open>
  With one control and one target the constructor builds the matrix of side 4 that is
  the identity on the block where the control is 0 and the target matrix on the block
  where it is 1.
\<close>

lemma controlled_x_matrix:
  "ControlledGate_matrix [0] [1] pauli_x
     = Inr \<lparr> shape = [4, 4], entries = [1, 0, 0, 0,  0, 1, 0, 0,  0, 0, 0, 1,  0, 0, 1, 0] \<rparr>"
  by code_simp

text \<open>
  C1 fails on the code.  The side of the identity matrix is computed as the sum
  \<open>2^t + 2^c\<close>, not as \<open>2^(c + t)\<close>: with two controls and one target it is 6, the
  slice that starts at \<open>2^(c + t) - 2^t = 6\<close> is empty, and assigning the target matrix
  of side 2 to it raises \<^verbatim>\<open>ValueError\<close>.  No matrix of side 8 is produced.
\<close>

theorem controlled_gate_two_controls_raises:
  "ControlledGate_matrix [0, 1] [2] pauli_x = Inl ValueError
   \<and> shape (eye (2 ^ length [2 :: nat] + 2 ^ length [0, 1 :: nat])) = [6, 6]"
  by (simp add: ControlledGate_matrix_def assign_block_def eye_def pauli_x_def Let_def)


section \<open>Builder operations: what is appended\<close>

text \<open>
  C9.  A rotation builder called with the parameter \<open>0.0\<close> returns the circuit as it was,
  gate list included; called with any other parameter (the infinities and not-a-number
  among them) it returns the circuit with exactly one gate, the rotation at that position
  with that parameter, appended.
\<close>

theorem rotation_zero_is_noop:
  "qc_rx c p (Finite 0) = c \<and> qc_ry c p (Finite 0) = c \<and> qc_rz c p (Finite 0) = c
   \<and> (para \<noteq> Finite 0 \<longrightarrow>
        gates (qc_rx c p para) = gates c @ [RXGate p para]
      \<and> gates (qc_ry c p para) = gates c @ [RYGate p para]
      \<and> gates (qc_rz c p para) = gates c @ [RZGate p para]
      \<and> length (gates (qc_rx c p para)) = Suc (length (gates c))
      \<and> length (gates (qc_ry c p para)) = Suc (length (gates c))
      \<and> length (gates (qc_rz c p para)) = Suc (length (gates c)))"
  by (simp add: qc_rx_def qc_ry_def qc_rz_def)

theorem rotation_zero_is_noop_witness:
  "Finite (1/2) \<noteq> Finite 0
   \<and> gates (qc_rx (QuantumCircuit_init 2) 1 (Finite (1/2))) = [RXGate 1 (Finite (1/2))]
   \<and> gates (qc_rz (qc_h (QuantumCircuit_init 2) 0) 1 (Finite 0)) = [HGate 0]"
  using rotation_zero_is_noop [of "QuantumCircuit_init 2" 1 "Finite (1/2)"]
        rotation_zero_is_noop [of "qc_h (QuantumCircuit_init 2) 0" 1 "Finite 0"]
  by (simp add: QuantumCircuit_init_def qc_h_def)

text \<open>
  C10.  When \<^verbatim>\<open>measure\<close> is given a non-empty \<^verbatim>\<open>cbits\<close> whose length is not the
  number of distinct qubits in \<^verbatim>\<open>pos\<close>, it raises \<^verbatim>\<open>CircuitError\<close>, and the circuit it
  leaves behind has \<^verbatim>\<open>measures\<close> replaced by the default mapping of \<^verbatim>\<open>pos\<close> onto
  \<open>0, 1, ...\<close> and \<^verbatim>\<open>shots\<close> and \<^verbatim>\<open>tomo\<close> replaced by the arguments.
\<close>

theorem measure_error_after_overwrite:
  assumes "cbits \<noteq> []" and "length cbits \<noteq> card (set pos)"
  shows "qc_measure c pos s cbits t =
           (Some CircuitError,
            c\<lparr>measures := dict_of (zip pos [0..<length pos]), shots := s, tomo := t\<rparr>)"
  using assms by (simp add: qc_measure_def Let_def dict_of_zip_range_length)

theorem measure_error_after_overwrite_witness:
  "[5::nat] \<noteq> [] \<and> length [5::nat] \<noteq> card (set [1, 0::nat])
   \<and> fst (qc_measure (QuantumCircuit_init 3) [1, 0] 200 [5] True) = Some CircuitError
   \<and> measures (snd (qc_measure (QuantumCircuit_init 3) [1, 0] 200 [5] True)) = [(1, 0), (0, 1)]
   \<and> measures (QuantumCircuit_init 3) = [(0, 0), (1, 1), (2, 2)]
   \<and> shots (snd (qc_measure (QuantumCircuit_init 3) [1, 0] 200 [5] True)) = 200
   \<and> tomo (snd (qc_measure (QuantumCircuit_init 3) [1, 0] 200 [5] True))"
proof -
  have a: "[5::nat] \<noteq> []" by simp
  have b: "length [5::nat] \<noteq> card (set [1, 0::nat])" by simp
  have u3: "[0..<3] = [0, 1, 2]" by (simp add: upt_rec)
  have u2: "[0..<2] = [0, 1]" by (simp add: upt_rec)
  show ?thesis
    using measure_error_after_overwrite [OF a b, of "QuantumCircuit_init 3" 200 True]
    by (simp add: QuantumCircuit_init_def dict_of_def u3 u2)
qed

end
